theory Spec2Isabelle
  imports Main "HOL-Library.Word"
begin

section \<open>sysusers.c: data model\<close>

text \<open>
  The embedding follows src/sysusers/sysusers.c. \<open>uid_t\<close> and \<open>gid_t\<close> are unsigned
  32-bit integers. The C return convention is kept: a function returns an \<open>int\<close>,
  negative for \<open>-errno\<close>. Memory allocation is taken to succeed (\<open>strdup\<close>, \<open>new0\<close>,
  \<open>hashmap_ensure_allocated\<close> never fail).
\<close>

type_synonym uid_t = "32 word"
type_synonym gid_t = "32 word"

text \<open>
  \<open>UID_TO_PTR(u)\<close> is \<open>ULONG_TO_PTR(u+1)\<close>: the sum is computed in \<open>uid_t\<close>, so the
  pointer's value is below \<open>2^32\<close> and is modelled by that 32-bit value; the null pointer
  is 0.
\<close>

type_synonym ptr = "32 word"

definition UID_TO_PTR :: "uid_t \<Rightarrow> ptr" where
  "UID_TO_PTR u = u + 1"

definition PTR_TO_UID :: "ptr \<Rightarrow> uid_t" where
  "PTR_TO_UID p = p - 1"

definition GID_TO_PTR :: "gid_t \<Rightarrow> ptr" where
  "GID_TO_PTR g = g + 1"

definition PTR_TO_GID :: "ptr \<Rightarrow> gid_t" where
  "PTR_TO_GID p = p - 1"

text \<open>The errno values used by the file (Linux numbering).\<close>

definition ENOENT :: nat where "ENOENT = 2"
definition EIO :: nat where "EIO = 5"
definition E2BIG :: nat where "E2BIG = 7"
definition ENOMEM :: nat where "ENOMEM = 12"
definition EEXIST :: nat where "EEXIST = 17"
definition EINVAL :: nat where "EINVAL = 22"
definition EBADMSG :: nat where "EBADMSG = 74"

definition EXIT_SUCCESS :: int where "EXIT_SUCCESS = 0"
definition EXIT_FAILURE :: int where "EXIT_FAILURE = 1"

datatype ItemType = ADD_USER | ADD_GROUP

record Item =
  type :: ItemType
  name :: string
  uid_path :: "string option"
  gid_path :: "string option"
  description :: "string option"
  gid :: gid_t
  uid :: uid_t
  gid_set :: bool
  uid_set :: bool
  todo :: bool

text \<open>
  An \<open>Item *\<close> is modelled by the place the item is stored at: the declared map it was put
  into by \<open>parse_line\<close> (\<open>users\<close> for \<open>ADD_USER\<close>, \<open>groups\<close> for \<open>ADD_GROUP\<close>) and its
  key there.
\<close>

type_synonym item_ref = "ItemType \<times> string"

subsection \<open>Hashmap\<close>

text \<open>
  hashmap.c is not part of the file. A \<open>Hashmap\<close> is an association list with distinct
  keys; \<open>HASHMAP_FOREACH\<close> visits it in list order (any order of the entries is some
  list). \<open>hashmap_put\<close> refuses a key that is already present: it returns 0 when the
  same value is stored under it and \<open>-EEXIST\<close> otherwise, and 1 after an insertion.
\<close>

type_synonym ('k, 'v) Hashmap = "('k \<times> 'v) list"

definition hashmap_get :: "('k, 'v) Hashmap \<Rightarrow> 'k \<Rightarrow> 'v option" where
  "hashmap_get h k = map_of h k"

definition hashmap_contains :: "('k, 'v) Hashmap \<Rightarrow> 'k \<Rightarrow> bool" where
  "hashmap_contains h k = (map_of h k \<noteq> None)"

definition hashmap_size :: "('k, 'v) Hashmap \<Rightarrow> nat" where
  "hashmap_size h = length h"

definition hashmap_put :: "('k, 'v) Hashmap \<Rightarrow> 'k \<Rightarrow> 'v \<Rightarrow> int \<times> ('k, 'v) Hashmap" where
  "hashmap_put h k v =
     (case map_of h k of
        None \<Rightarrow> (1, h @ [(k, v)])
      | Some v' \<Rightarrow> (if v' = v then (0, h) else (- int EEXIST, h)))"

text \<open>A write through a pointer that was obtained from the map: the value under \<open>k\<close> changes in place.\<close>

definition hashmap_modify :: "('k, 'v) Hashmap \<Rightarrow> 'k \<Rightarrow> ('v \<Rightarrow> 'v) \<Rightarrow> ('k, 'v) Hashmap" where
  "hashmap_modify h k f = map (\<lambda>(k', v). if k' = k then (k', f v) else (k', v)) h"

subsection \<open>The host: name service, stat, limits\<close>

record passwd =
  pw_name :: string
  pw_passwd :: string
  pw_uid :: uid_t
  pw_gid :: gid_t
  pw_gecos :: "string option"
  pw_dir :: string
  pw_shell :: string

record group =
  gr_name :: string
  gr_passwd :: string
  gr_gid :: gid_t
  gr_mem :: "string list"

record stat =
  st_uid :: uid_t
  st_gid :: gid_t

text \<open>
  A libc lookup returns a pointer to an entry, or NULL with \<open>errno\<close> left at the value
  given (0 when there is no such entry, non-zero when the lookup failed). \<open>stat\<close> either
  fills the buffer or fails; only the sign of its result is looked at.
\<close>

datatype 'a lookup = Found 'a | Missing nat

text \<open>
  The calls of the file that can fail for reasons outside the program. The host gives each
  the \<open>errno\<close> it fails with, 0 when it succeeds.
\<close>

datatype syscall =
    Take_lock
  | Load_fopen_passwd | Load_fgetpwent | Load_fopen_group | Load_fgetgrent
  | Fopen_temporary_group | Fchmod_group | Fopen_group | Fgetgrent
  | Putgrent group | Fflush_group
  | Fopen_temporary_passwd | Fchmod_passwd | Fopen_passwd | Fgetpwent
  | Putpwent passwd | Fflush_passwd
  | Backup_open string | Backup_fstat string | Backup_mkostemp string
  | Backup_copy_bytes string | Backup_fchmod string | Backup_rename string
  | Rename_group | Rename_passwd

text \<open>
  \<open>SYSTEM_UID_MAX\<close> and \<open>SYSTEM_GID_MAX\<close> come from the build configuration, which is not
  part of the file; they are parameters, as are the name-service switch, the shadow
  database, the file system seen by \<open>stat\<close> and the failures of system calls.
\<close>

record host =
  SYSTEM_UID_MAX :: uid_t
  SYSTEM_GID_MAX :: gid_t
  getpwnam :: "string \<Rightarrow> passwd lookup"
  getpwuid :: "uid_t \<Rightarrow> passwd lookup"
  getgrnam :: "string \<Rightarrow> group lookup"
  getgrgid :: "gid_t \<Rightarrow> group lookup"
  getspnam :: "string \<Rightarrow> unit lookup"
  stat_path :: "string \<Rightarrow> stat option"
  io :: "syscall \<Rightarrow> nat"

subsection \<open>The global state of a run\<close>

record session =
  arg_root :: "string option"
  users :: "(string, Item) Hashmap"
  groups :: "(string, Item) Hashmap"
  todo_uids :: "(ptr, item_ref) Hashmap"
  todo_gids :: "(ptr, item_ref) Hashmap"
  database_uid :: "(ptr, string) Hashmap"
  database_user :: "(string, ptr) Hashmap"
  database_gid :: "(ptr, string) Hashmap"
  database_group :: "(string, ptr) Hashmap"
  search_uid :: uid_t
  search_gid :: gid_t

definition item_at :: "session \<Rightarrow> item_ref \<Rightarrow> Item option" where
  "item_at s r = (case fst r of
      ADD_USER \<Rightarrow> hashmap_get (users s) (snd r)
    | ADD_GROUP \<Rightarrow> hashmap_get (groups s) (snd r))"

definition the_item :: "session \<Rightarrow> item_ref \<Rightarrow> Item" where
  "the_item s r = the (item_at s r)"

definition set_item :: "item_ref \<Rightarrow> (Item \<Rightarrow> Item) \<Rightarrow> session \<Rightarrow> session" where
  "set_item r f s = (case fst r of
      ADD_USER \<Rightarrow> s\<lparr>users := hashmap_modify (users s) (snd r) f\<rparr>
    | ADD_GROUP \<Rightarrow> s\<lparr>groups := hashmap_modify (groups s) (snd r) f\<rparr>)"

definition fix_root :: "session \<Rightarrow> string \<Rightarrow> string" where
  "fix_root s x = (case arg_root s of Some root \<Rightarrow> root @ x | None \<Rightarrow> x)"

section \<open>The ID allocator\<close>

text \<open>\<open>uid_is_ok\<close>: 0 is "taken", 1 is "free", a negative value is \<open>-errno\<close>.\<close>

definition uid_is_ok :: "host \<Rightarrow> session \<Rightarrow> uid_t \<Rightarrow> string \<Rightarrow> int" where
  "uid_is_ok h s u nm =
     (if hashmap_get (todo_uids s) (UID_TO_PTR u) \<noteq> None then 0
      else if (case hashmap_get (todo_gids s) (GID_TO_PTR u) of
                 Some r \<Rightarrow> name (the_item s r) \<noteq> nm | None \<Rightarrow> False) then 0
      else if hashmap_contains (database_uid s) (UID_TO_PTR u) then 0
      else if (case hashmap_get (database_gid s) (GID_TO_PTR u) of
                 Some n \<Rightarrow> n \<noteq> nm | None \<Rightarrow> False) then 0
      else if arg_root s = None then
        (case getpwuid h u of
           Found p \<Rightarrow> 0
         | Missing e \<Rightarrow>
             if e \<noteq> 0 then - int e
             else (case getgrgid h u of
                     Found g \<Rightarrow> if gr_name g \<noteq> nm then 0 else 1
                   | Missing e' \<Rightarrow> if e' \<noteq> 0 then - int e' else 1))
      else 1)"

definition gid_is_ok :: "host \<Rightarrow> session \<Rightarrow> gid_t \<Rightarrow> int" where
  "gid_is_ok h s g =
     (if hashmap_get (todo_gids s) (GID_TO_PTR g) \<noteq> None then 0
      else if hashmap_get (todo_uids s) (UID_TO_PTR g) \<noteq> None then 0
      else if hashmap_contains (database_gid s) (GID_TO_PTR g) then 0
      else if hashmap_contains (database_uid s) (UID_TO_PTR g) then 0
      else if arg_root s = None then
        (case getgrgid h g of
           Found gr \<Rightarrow> 0
         | Missing e \<Rightarrow>
             if e \<noteq> 0 then - int e
             else (case getpwuid h g of
                     Found p \<Rightarrow> 0
                   | Missing e' \<Rightarrow> if e' \<noteq> 0 then - int e' else 1))
      else 1)"

section \<open>The reconciler\<close>

definition root_stat :: "host \<Rightarrow> session \<Rightarrow> string \<Rightarrow> stat option" where
  "root_stat h s p = stat_path h (fix_root s p)"

text \<open>
  \<open>read_id_from_file(i, _uid, _gid)\<close>: the two flags say which of the output pointers
  are non-NULL; the result carries the values written through them.
\<close>

definition read_id_from_file ::
    "host \<Rightarrow> session \<Rightarrow> Item \<Rightarrow> bool \<Rightarrow> bool \<Rightarrow> int \<times> uid_t option \<times> gid_t option" where
  "read_id_from_file h s i want_uid want_gid =
     (let g1 = (if want_gid then
                  (case gid_path i of
                     Some p \<Rightarrow> map_option st_gid (root_stat h s p)
                   | None \<Rightarrow> None)
                else None);
          st2 = (if want_uid \<or> (want_gid \<and> g1 = None) then
                   (case uid_path i of Some p \<Rightarrow> root_stat h s p | None \<Rightarrow> None)
                 else None);
          u2 = map_option st_uid st2;
          g2 = (if want_gid \<and> g1 = None then map_option st_gid st2 else g1);
          u3 = (if want_uid \<and> u2 = None then
                  (case gid_path i of
                     Some p \<Rightarrow>
                       (case g2 of
                          Some g \<Rightarrow> Some g
                        | None \<Rightarrow> map_option st_gid (root_stat h s p))
                   | None \<Rightarrow> u2)
                else u2)
      in if want_uid \<and> u3 = None then (0, None, None)
         else if want_gid \<and> g2 = None then (0, (if want_uid then u3 else None), None)
         else (1, (if want_uid then u3 else None), (if want_gid then g2 else None)))"

text \<open>
  A function body is a sequence of blocks; a block either returns (\<open>Return r s\<close>) or
  falls through to the next one (\<open>Continue s\<close>).
\<close>

datatype 'a step = Return int 'a | Continue 'a

definition and_then :: "'a step \<Rightarrow> ('a \<Rightarrow> 'a step) \<Rightarrow> 'a step" where
  "and_then x f = (case x of Return r s \<Rightarrow> Return r s | Continue s \<Rightarrow> f s)"

definition finish :: "'a step \<Rightarrow> int \<times> 'a" where
  "finish x = (case x of Return r s \<Rightarrow> (r, s) | Continue s \<Rightarrow> (0, s))"

text \<open>The value of a \<open>void *\<close> that \<open>hashmap_get\<close> returned for a map of encoded IDs.\<close>

definition ptr_value :: "ptr option \<Rightarrow> ptr" where
  "ptr_value z = (case z of Some p \<Rightarrow> p | None \<Rightarrow> 0)"

subsection \<open>add_user\<close>

definition add_user_database :: "item_ref \<Rightarrow> session \<Rightarrow> session step" where
  "add_user_database r s =
     (let z = ptr_value (hashmap_get (database_user s) (name (the_item s r)))
      in if z \<noteq> 0 then
           Return 0 (set_item r (\<lambda>i. i\<lparr>uid := PTR_TO_GID z, uid_set := True\<rparr>) s)
         else Continue s)"

definition add_user_nss :: "host \<Rightarrow> item_ref \<Rightarrow> session \<Rightarrow> session step" where
  "add_user_nss h r s =
     (if arg_root s = None then
        (case getpwnam h (name (the_item s r)) of
           Found p \<Rightarrow>
             Return 0 (set_item r
               (\<lambda>i. i\<lparr>uid := pw_uid p, uid_set := True, description := pw_gecos p\<rparr>) s)
         | Missing e \<Rightarrow>
             if e \<noteq> 0 then Return (- int e) s
             else (case getspnam h (name (the_item s r)) of
                     Found sp \<Rightarrow> Return (- int EBADMSG) s
                   | Missing e' \<Rightarrow> if e' \<noteq> 0 then Return (- int e') s else Continue s))
      else Continue s)"

definition add_user_suggested :: "host \<Rightarrow> item_ref \<Rightarrow> session \<Rightarrow> session step" where
  "add_user_suggested h r s =
     (let i = the_item s r
      in if uid_set i then
           (let k = uid_is_ok h s (uid i) (name i)
            in if k < 0 then Return k s
               else if k = 0 then Continue (set_item r (\<lambda>i. i\<lparr>uid_set := False\<rparr>) s)
               else Continue s)
         else Continue s)"

definition add_user_path :: "host \<Rightarrow> item_ref \<Rightarrow> session \<Rightarrow> session step" where
  "add_user_path h r s =
     (let i = the_item s r
      in if \<not> uid_set i then
           (case read_id_from_file h s i True False of
              (k, cu, cg) \<Rightarrow>
                if k > 0 then
                  (case cu of
                     Some c \<Rightarrow>
                       if c \<le> 0 \<or> c > SYSTEM_UID_MAX h then Continue s
                       else (let q = uid_is_ok h s c (name i)
                             in if q < 0 then Return q s
                                else if q > 0 then
                                  Continue (set_item r (\<lambda>i. i\<lparr>uid := c, uid_set := True\<rparr>) s)
                                else Continue s)
                   | None \<Rightarrow> Continue s)
                else Continue s)
         else Continue s)"

definition add_user_reuse_gid :: "host \<Rightarrow> item_ref \<Rightarrow> session \<Rightarrow> session step" where
  "add_user_reuse_gid h r s =
     (let i = the_item s r
      in if \<not> uid_set i \<and> gid_set i then
           (let k = uid_is_ok h s (gid i) (name i)
            in if k < 0 then Return k s
               else if k > 0 then
                 Continue (set_item r (\<lambda>i. i\<lparr>uid := gid i, uid_set := True\<rparr>) s)
               else Continue s)
         else Continue s)"

text \<open>The loop \<open>for (; search_uid > 0; search_uid--)\<close> of add_user.\<close>

function scan_uid :: "host \<Rightarrow> string \<Rightarrow> session \<Rightarrow> session step" where
  "scan_uid h nm s =
     (if search_uid s > 0 then
        (let k = uid_is_ok h s (search_uid s) nm
         in if k < 0 then Return k s
            else if k > 0 then Continue s
            else scan_uid h nm (s\<lparr>search_uid := search_uid s - 1\<rparr>))
      else Continue s)"
  by pat_completeness auto
termination
  by (relation "measure (\<lambda>(h, nm, s). unat (search_uid s))")
     (auto simp: unat_minus_one word_greater_zero_iff unat_gt_0)

definition add_user_search :: "host \<Rightarrow> item_ref \<Rightarrow> session \<Rightarrow> session step" where
  "add_user_search h r s =
     (if \<not> uid_set (the_item s r) then
        and_then (scan_uid h (name (the_item s r)) s) (\<lambda>s1.
          if search_uid s1 \<le> 0 then Return (- int E2BIG) s1
          else Continue
                 ((set_item r (\<lambda>i. i\<lparr>uid_set := True, uid := search_uid s1\<rparr>) s1)
                    \<lparr>search_uid := search_uid s1 - 1\<rparr>))
      else Continue s)"

definition add_user_todo :: "item_ref \<Rightarrow> session \<Rightarrow> session step" where
  "add_user_todo r s =
     (case hashmap_put (todo_uids s) (UID_TO_PTR (uid (the_item s r))) r of
        (k, m) \<Rightarrow>
          if k < 0 then Return (- int ENOMEM) s
          else Return 0 (set_item r (\<lambda>i. i\<lparr>todo := True\<rparr>) (s\<lparr>todo_uids := m\<rparr>)))"

definition add_user :: "host \<Rightarrow> item_ref \<Rightarrow> session \<Rightarrow> int \<times> session" where
  "add_user h r s =
     finish
       (and_then (add_user_database r s) (\<lambda>s.
        and_then (add_user_nss h r s) (\<lambda>s.
        and_then (add_user_suggested h r s) (\<lambda>s.
        and_then (add_user_path h r s) (\<lambda>s.
        and_then (add_user_reuse_gid h r s) (\<lambda>s.
        and_then (add_user_search h r s) (\<lambda>s.
        add_user_todo r s)))))))"

subsection \<open>add_group\<close>

definition add_group_database :: "item_ref \<Rightarrow> session \<Rightarrow> session step" where
  "add_group_database r s =
     (let z = ptr_value (hashmap_get (database_group s) (name (the_item s r)))
      in if z \<noteq> 0 then
           Return 0 (set_item r (\<lambda>i. i\<lparr>gid := PTR_TO_GID z, gid_set := True\<rparr>) s)
         else Continue s)"

definition add_group_nss :: "host \<Rightarrow> item_ref \<Rightarrow> session \<Rightarrow> session step" where
  "add_group_nss h r s =
     (if arg_root s = None then
        (case getgrnam h (name (the_item s r)) of
           Found g \<Rightarrow>
             Return 0 (set_item r (\<lambda>i. i\<lparr>gid := gr_gid g, gid_set := True\<rparr>) s)
         | Missing e \<Rightarrow> if e \<noteq> 0 then Return (- int e) s else Continue s)
      else Continue s)"

definition add_group_suggested :: "host \<Rightarrow> item_ref \<Rightarrow> session \<Rightarrow> session step" where
  "add_group_suggested h r s =
     (let i = the_item s r
      in if gid_set i then
           (let k = gid_is_ok h s (gid i)
            in if k < 0 then Return k s
               else if k = 0 then Continue (set_item r (\<lambda>i. i\<lparr>gid_set := False\<rparr>) s)
               else Continue s)
         else Continue s)"

definition add_group_reuse_uid :: "host \<Rightarrow> item_ref \<Rightarrow> session \<Rightarrow> session step" where
  "add_group_reuse_uid h r s =
     (let i = the_item s r
      in if \<not> gid_set i \<and> uid_set i then
           (let k = gid_is_ok h s (uid i)
            in if k < 0 then Return k s
               else if k > 0 then
                 Continue (set_item r (\<lambda>i. i\<lparr>gid := uid i, gid_set := True\<rparr>) s)
               else Continue s)
         else Continue s)"

definition add_group_path :: "host \<Rightarrow> item_ref \<Rightarrow> session \<Rightarrow> session step" where
  "add_group_path h r s =
     (let i = the_item s r
      in if \<not> gid_set i then
           (case read_id_from_file h s i False True of
              (k, cu, cg) \<Rightarrow>
                if k > 0 then
                  (case cg of
                     Some c \<Rightarrow>
                       if c \<le> 0 \<or> c > SYSTEM_GID_MAX h then Continue s
                       else (let q = gid_is_ok h s c
                             in if q < 0 then Return q s
                                else if q > 0 then
                                  Continue (set_item r (\<lambda>i. i\<lparr>gid := c, gid_set := True\<rparr>) s)
                                else Continue s)
                   | None \<Rightarrow> Continue s)
                else Continue s)
         else Continue s)"

text \<open>The loop \<open>for (; search_gid > 0; search_gid--)\<close> of add_group.\<close>

function scan_gid :: "host \<Rightarrow> session \<Rightarrow> session step" where
  "scan_gid h s =
     (if search_gid s > 0 then
        (let k = gid_is_ok h s (search_gid s)
         in if k < 0 then Return k s
            else if k > 0 then Continue s
            else scan_gid h (s\<lparr>search_gid := search_gid s - 1\<rparr>))
      else Continue s)"
  by pat_completeness auto
termination
  by (relation "measure (\<lambda>(h, s). unat (search_gid s))")
     (auto simp: unat_minus_one word_greater_zero_iff unat_gt_0)

definition add_group_search :: "host \<Rightarrow> item_ref \<Rightarrow> session \<Rightarrow> session step" where
  "add_group_search h r s =
     (if \<not> gid_set (the_item s r) then
        and_then (scan_gid h s) (\<lambda>s1.
          if search_gid s1 \<le> 0 then Return (- int E2BIG) s1
          else Continue
                 ((set_item r (\<lambda>i. i\<lparr>gid_set := True, gid := search_gid s1\<rparr>) s1)
                    \<lparr>search_gid := search_gid s1 - 1\<rparr>))
      else Continue s)"

definition add_group_todo :: "item_ref \<Rightarrow> session \<Rightarrow> session step" where
  "add_group_todo r s =
     (case hashmap_put (todo_gids s) (GID_TO_PTR (gid (the_item s r))) r of
        (k, m) \<Rightarrow>
          if k < 0 then Return (- int ENOMEM) s
          else Return 0 (set_item r (\<lambda>i. i\<lparr>todo := True\<rparr>) (s\<lparr>todo_gids := m\<rparr>)))"

definition add_group :: "host \<Rightarrow> item_ref \<Rightarrow> session \<Rightarrow> int \<times> session" where
  "add_group h r s =
     finish
       (and_then (add_group_database r s) (\<lambda>s.
        and_then (add_group_nss h r s) (\<lambda>s.
        and_then (add_group_suggested h r s) (\<lambda>s.
        and_then (add_group_reuse_uid h r s) (\<lambda>s.
        and_then (add_group_path h r s) (\<lambda>s.
        and_then (add_group_search h r s) (\<lambda>s.
        add_group_todo r s)))))))"

subsection \<open>process_item\<close>

definition process_item :: "host \<Rightarrow> item_ref \<Rightarrow> session \<Rightarrow> int \<times> session" where
  "process_item h r s =
     (case type (the_item s r) of
        ADD_USER \<Rightarrow>
          (case add_group h r s of
             (k, s1) \<Rightarrow> if k < 0 then (k, s1) else add_user h r s1)
      | ADD_GROUP \<Rightarrow>
          (let i = the_item s r
           in case hashmap_get (users s) (name i) of
                Some j \<Rightarrow>
                  (let s1 = (if gid_set i then
                               set_item (ADD_USER, name i)
                                 (\<lambda>j. j\<lparr>gid := gid i, gid_set := True\<rparr>) s
                             else s);
                       s2 = (case gid_path i of
                               Some p \<Rightarrow>
                                 set_item (ADD_USER, name i) (\<lambda>j. j\<lparr>gid_path := Some p\<rparr>) s1
                             | None \<Rightarrow> s1)
                   in (0, s2))
              | None \<Rightarrow> add_group h r s))"

section \<open>The account files\<close>

text \<open>
  A file is the list of entries that \<open>fgetpwent\<close>/\<open>fgetgrent\<close> read from it, or absent.
  Beside \<open>/etc/passwd\<close> and \<open>/etc/group\<close> (below the alternate root) there are their
  backups \<open>/etc/passwd-\<close> and \<open>/etc/group-\<close> and the temporary files \<open>write_files\<close>
  creates next to them.
\<close>

record filesystem =
  etc_passwd :: "passwd list option"
  etc_group :: "group list option"
  etc_passwd_backup :: "passwd list option"
  etc_group_backup :: "group list option"
  passwd_tmp :: "passwd list option"
  group_tmp :: "group list option"

text \<open>\<open>fopen(path, "re")\<close>: the entries, or the errno (\<open>ENOENT\<close> for an absent file).\<close>

definition fopen_read :: "host \<Rightarrow> syscall \<Rightarrow> 'a list option \<Rightarrow> nat + 'a list" where
  "fopen_read h c f =
     (if io h c \<noteq> 0 then Inl (io h c)
      else case f of None \<Rightarrow> Inl ENOENT | Some es \<Rightarrow> Inr es)"

subsection \<open>The database loader\<close>

fun load_users :: "passwd list \<Rightarrow> session \<Rightarrow> session step" where
  "load_users [] s = Continue s"
| "load_users (pw # rest) s =
     (case hashmap_put (database_user s) (pw_name pw) (UID_TO_PTR (pw_uid pw)) of
        (k, du) \<Rightarrow>
          if k < 0 \<and> k \<noteq> - int EEXIST then Return k s
          else (case hashmap_put (database_uid s) (UID_TO_PTR (pw_uid pw)) (pw_name pw) of
                  (q, di) \<Rightarrow>
                    if q < 0 \<and> q \<noteq> - int EEXIST then Return q (s\<lparr>database_user := du\<rparr>)
                    else load_users rest (s\<lparr>database_user := du, database_uid := di\<rparr>)))"

definition load_user_database :: "host \<Rightarrow> filesystem \<Rightarrow> session \<Rightarrow> int \<times> session" where
  "load_user_database h fs s =
     (case fopen_read h Load_fopen_passwd (etc_passwd fs) of
        Inl e \<Rightarrow> ((if e = ENOENT then 0 else - int e), s)
      | Inr ents \<Rightarrow>
          finish (and_then (load_users ents s) (\<lambda>s.
            if io h Load_fgetpwent \<notin> {0, ENOENT} then Return (- int (io h Load_fgetpwent)) s
            else Return 0 s)))"

fun load_groups :: "group list \<Rightarrow> session \<Rightarrow> session step" where
  "load_groups [] s = Continue s"
| "load_groups (gr # rest) s =
     (case hashmap_put (database_group s) (gr_name gr) (GID_TO_PTR (gr_gid gr)) of
        (k, dg) \<Rightarrow>
          if k < 0 \<and> k \<noteq> - int EEXIST then Return k s
          else (case hashmap_put (database_gid s) (GID_TO_PTR (gr_gid gr)) (gr_name gr) of
                  (q, di) \<Rightarrow>
                    if q < 0 \<and> q \<noteq> - int EEXIST then Return q (s\<lparr>database_group := dg\<rparr>)
                    else load_groups rest (s\<lparr>database_group := dg, database_gid := di\<rparr>)))"

definition load_group_database :: "host \<Rightarrow> filesystem \<Rightarrow> session \<Rightarrow> int \<times> session" where
  "load_group_database h fs s =
     (case fopen_read h Load_fopen_group (etc_group fs) of
        Inl e \<Rightarrow> ((if e = ENOENT then 0 else - int e), s)
      | Inr ents \<Rightarrow>
          finish (and_then (load_groups ents s) (\<lambda>s.
            if io h Load_fgetgrent \<notin> {0, ENOENT} then Return (- int (io h Load_fgetgrent)) s
            else Return 0 s)))"

subsection \<open>make_backup\<close>

text \<open>
  \<open>make_backup(x)\<close> copies the file \<open>x\<close> to a temporary sibling and renames that to the
  backup; its temporary file never outlives the call. The result is the return value and
  the content of the backup file afterwards. \<open>copy_bytes\<close> leaves 0 in \<open>r\<close> when it
  succeeds, which is what a failed \<open>rename\<close> returns.
\<close>

definition make_backup ::
    "host \<Rightarrow> string \<Rightarrow> 'a list option \<Rightarrow> 'a list option \<Rightarrow> int \<times> 'a list option" where
  "make_backup h x file backup =
     (case fopen_read h (Backup_open x) file of
        Inl e \<Rightarrow> ((if e = ENOENT then 0 else - int e), backup)
      | Inr content \<Rightarrow>
          if io h (Backup_fstat x) \<noteq> 0 then (- int (io h (Backup_fstat x)), backup)
          else if io h (Backup_mkostemp x) \<noteq> 0 then (- int (io h (Backup_mkostemp x)), backup)
          else if io h (Backup_copy_bytes x) \<noteq> 0 then (- int (io h (Backup_copy_bytes x)), backup)
          else if io h (Backup_fchmod x) \<noteq> 0 then (- int (io h (Backup_fchmod x)), backup)
          else if io h (Backup_rename x) \<noteq> 0 then (0, backup)
          else (0, Some content))"

subsection \<open>write_files\<close>

text \<open>The loop over the existing entries of \<open>/etc/group\<close>; \<open>out\<close> is the temporary file.\<close>

fun copy_groups :: "host \<Rightarrow> session \<Rightarrow> group list \<Rightarrow> group list \<Rightarrow> (group list) step" where
  "copy_groups h s [] out = Continue out"
| "copy_groups h s (gr # rest) out =
     (if (case hashmap_get (groups s) (gr_name gr) of Some i \<Rightarrow> todo i | None \<Rightarrow> False) then
        Return (- int EEXIST) out
      else if hashmap_contains (todo_gids s) (GID_TO_PTR (gr_gid gr)) then
        Return (- int EEXIST) out
      else if io h (Putgrent gr) \<noteq> 0 then Return (- int (io h (Putgrent gr))) out
      else copy_groups h s rest (out @ [gr]))"

definition new_group :: "Item \<Rightarrow> group" where
  "new_group i = \<lparr>gr_name = name i, gr_passwd = ''x'', gr_gid = gid i, gr_mem = []\<rparr>"

text \<open>\<open>HASHMAP_FOREACH(i, todo_gids, iterator)\<close>: one new line per pending group.\<close>

fun put_groups :: "host \<Rightarrow> Item list \<Rightarrow> group list \<Rightarrow> (group list) step" where
  "put_groups h [] out = Continue out"
| "put_groups h (i # rest) out =
     (if io h (Putgrent (new_group i)) \<noteq> 0 then
        Return (- int (io h (Putgrent (new_group i)))) out
      else put_groups h rest (out @ [new_group i]))"

text \<open>The loop over the existing entries of \<open>/etc/passwd\<close>.\<close>

fun copy_users :: "host \<Rightarrow> session \<Rightarrow> passwd list \<Rightarrow> passwd list \<Rightarrow> (passwd list) step" where
  "copy_users h s [] out = Continue out"
| "copy_users h s (pw # rest) out =
     (if (case hashmap_get (users s) (pw_name pw) of Some i \<Rightarrow> todo i | None \<Rightarrow> False) then
        Return (- int EEXIST) out
      else if hashmap_contains (todo_uids s) (UID_TO_PTR (pw_uid pw)) then
        Return (- int EEXIST) out
      else if io h (Putpwent pw) \<noteq> 0 then Return (- int (io h (Putpwent pw))) out
      else copy_users h s rest (out @ [pw]))"

definition new_passwd :: "Item \<Rightarrow> passwd" where
  "new_passwd i =
     \<lparr>pw_name = name i, pw_passwd = ''x'', pw_uid = uid i, pw_gid = gid i,
      pw_gecos = description i,
      pw_dir = (if uid i = 0 then ''/root'' else ''/''),
      pw_shell = (if uid i = 0 then ''/bin/sh'' else ''/sbin/nologin'')\<rparr>"

text \<open>
  One new line per pending user. When \<open>putpwent\<close> fails here the code sets \<open>r = -r\<close>;
  \<open>r\<close> still holds the 0 that \<open>fopen_temporary\<close> returned, so the jump to \<open>finish\<close>
  carries 0.
\<close>

fun put_users :: "host \<Rightarrow> Item list \<Rightarrow> passwd list \<Rightarrow> (passwd list) step" where
  "put_users h [] out = Continue out"
| "put_users h (i # rest) out =
     (if io h (Putpwent (new_passwd i)) \<noteq> 0 then Return 0 out
      else put_users h rest (out @ [new_passwd i]))"

definition with_group_tmp :: "filesystem \<Rightarrow> (group list) step \<Rightarrow> filesystem step" where
  "with_group_tmp fs x =
     (case x of
        Return r out \<Rightarrow> Return r (fs\<lparr>group_tmp := Some out\<rparr>)
      | Continue out \<Rightarrow> Continue (fs\<lparr>group_tmp := Some out\<rparr>))"

definition with_passwd_tmp :: "filesystem \<Rightarrow> (passwd list) step \<Rightarrow> filesystem step" where
  "with_passwd_tmp fs x =
     (case x of
        Return r out \<Rightarrow> Return r (fs\<lparr>passwd_tmp := Some out\<rparr>)
      | Continue out \<Rightarrow> Continue (fs\<lparr>passwd_tmp := Some out\<rparr>))"

text \<open>The block \<open>if (hashmap_size(todo_gids) > 0)\<close>; \<open>Return\<close> is \<open>goto finish\<close>.\<close>

definition write_group_tmp :: "host \<Rightarrow> session \<Rightarrow> filesystem \<Rightarrow> filesystem step" where
  "write_group_tmp h s fs =
     (if hashmap_size (todo_gids s) > 0 then
        (if io h Fopen_temporary_group \<noteq> 0 then Return (- int (io h Fopen_temporary_group)) fs
         else if io h Fchmod_group \<noteq> 0 then
           Return (- int (io h Fchmod_group)) (fs\<lparr>group_tmp := Some []\<rparr>)
         else
           and_then
             (case fopen_read h Fopen_group (etc_group fs) of
                Inr ents \<Rightarrow>
                  and_then (with_group_tmp fs (copy_groups h s ents [])) (\<lambda>fs.
                    if io h Fgetgrent \<notin> {0, ENOENT} then Return (- int (io h Fgetgrent)) fs
                    else Continue fs)
              | Inl e \<Rightarrow>
                  if e \<noteq> ENOENT then Return (- int e) (fs\<lparr>group_tmp := Some []\<rparr>)
                  else Continue (fs\<lparr>group_tmp := Some []\<rparr>))
             (\<lambda>fs.
                and_then
                  (with_group_tmp fs
                     (put_groups h (map (\<lambda>(k, r). the_item s r) (todo_gids s))
                        (case group_tmp fs of Some out \<Rightarrow> out | None \<Rightarrow> [])))
                  (\<lambda>fs. if io h Fflush_group \<noteq> 0 then Return (- int (io h Fflush_group)) fs
                         else Continue fs)))
      else Continue fs)"

text \<open>The block \<open>if (hashmap_size(todo_uids) > 0)\<close>.\<close>

definition write_passwd_tmp :: "host \<Rightarrow> session \<Rightarrow> filesystem \<Rightarrow> filesystem step" where
  "write_passwd_tmp h s fs =
     (if hashmap_size (todo_uids s) > 0 then
        (if io h Fopen_temporary_passwd \<noteq> 0 then Return (- int (io h Fopen_temporary_passwd)) fs
         else if io h Fchmod_passwd \<noteq> 0 then
           Return (- int (io h Fchmod_passwd)) (fs\<lparr>passwd_tmp := Some []\<rparr>)
         else
           and_then
             (case fopen_read h Fopen_passwd (etc_passwd fs) of
                Inr ents \<Rightarrow>
                  and_then (with_passwd_tmp fs (copy_users h s ents [])) (\<lambda>fs.
                    if io h Fgetpwent \<notin> {0, ENOENT} then Return (- int (io h Fgetpwent)) fs
                    else Continue fs)
              | Inl e \<Rightarrow>
                  if e \<noteq> ENOENT then Return (- int e) (fs\<lparr>passwd_tmp := Some []\<rparr>)
                  else Continue (fs\<lparr>passwd_tmp := Some []\<rparr>))
             (\<lambda>fs.
                and_then
                  (with_passwd_tmp fs
                     (put_users h (map (\<lambda>(k, r). the_item s r) (todo_uids s))
                        (case passwd_tmp fs of Some out \<Rightarrow> out | None \<Rightarrow> [])))
                  (\<lambda>fs. if io h Fflush_passwd \<noteq> 0 then Return (- int (io h Fflush_passwd)) fs
                         else Continue fs)))
      else Continue fs)"

text \<open>
  "Make a backup of the old files": at this point \<open>group\<close> (\<open>passwd\<close>) is non-NULL exactly
  when the block of the table was entered, that is when its pending set is not empty.
\<close>

definition backup_files :: "host \<Rightarrow> session \<Rightarrow> filesystem \<Rightarrow> filesystem step" where
  "backup_files h s fs =
     and_then
       (if hashmap_size (todo_gids s) > 0 then
          (case make_backup h (fix_root s ''/etc/group'') (etc_group fs) (etc_group_backup fs) of
             (k, b) \<Rightarrow>
               if k < 0 then Return k (fs\<lparr>etc_group_backup := b\<rparr>)
               else Continue (fs\<lparr>etc_group_backup := b\<rparr>))
        else Continue fs)
       (\<lambda>fs.
          if hashmap_size (todo_uids s) > 0 then
            (case make_backup h (fix_root s ''/etc/passwd'') (etc_passwd fs) (etc_passwd_backup fs) of
               (k, b) \<Rightarrow>
                 if k < 0 then Return k (fs\<lparr>etc_passwd_backup := b\<rparr>)
                 else Continue (fs\<lparr>etc_passwd_backup := b\<rparr>))
          else Continue fs)"

text \<open>"And make the new files count": the two renames, then \<open>return 0\<close>.\<close>

definition rename_files :: "host \<Rightarrow> session \<Rightarrow> filesystem \<Rightarrow> filesystem step" where
  "rename_files h s fs =
     and_then
       (if hashmap_size (todo_gids s) > 0 then
          (if io h Rename_group \<noteq> 0 then Return (- int (io h Rename_group)) fs
           else Continue (fs\<lparr>etc_group := group_tmp fs, group_tmp := None\<rparr>))
        else Continue fs)
       (\<lambda>fs.
          if hashmap_size (todo_uids s) > 0 then
            (if io h Rename_passwd \<noteq> 0 then Return (- int (io h Rename_passwd)) fs
             else Return 0 (fs\<lparr>etc_passwd := passwd_tmp fs, passwd_tmp := None\<rparr>))
          else Return 0 fs)"

text \<open>
  The label \<open>finish\<close>: after a negative \<open>r\<close> the temporary files are unlinked. The two
  fields \<open>passwd_tmp\<close> and \<open>group_tmp\<close> stand for the files this call creates (their
  names are fresh), so they are absent when the call starts.
\<close>

definition write_files :: "host \<Rightarrow> session \<Rightarrow> filesystem \<Rightarrow> int \<times> filesystem" where
  "write_files h s fs =
     (case finish
             (and_then (write_group_tmp h s fs) (\<lambda>fs.
              and_then (write_passwd_tmp h s fs) (\<lambda>fs.
              and_then (backup_files h s fs) (\<lambda>fs.
              rename_files h s fs)))) of
        (r, fs') \<Rightarrow>
          if r < 0 then (r, fs'\<lparr>passwd_tmp := None, group_tmp := None\<rparr>) else (r, fs'))"

section \<open>main\<close>

fun process_items :: "host \<Rightarrow> item_ref list \<Rightarrow> session \<Rightarrow> session" where
  "process_items h [] s = s"
| "process_items h (r # rs) s = process_items h rs (snd (process_item h r s))"

text \<open>The two \<open>HASHMAP_FOREACH\<close> loops of main: the groups, then the users.\<close>

definition reconcile :: "host \<Rightarrow> session \<Rightarrow> session" where
  "reconcile h s =
     (let s1 = process_items h (map (\<lambda>(n, i). (ADD_GROUP, n)) (groups s)) s
      in process_items h (map (\<lambda>(n, i). (ADD_USER, n)) (users s1)) s1)"

text \<open>
  main from \<open>take_lock\<close> on. \<open>r0\<close> is the value \<open>r\<close> holds after the configuration was
  read. The result is the exit status, the files and the session at \<open>finish\<close>.
\<close>

definition main_locked :: "host \<Rightarrow> int \<Rightarrow> filesystem \<Rightarrow> session \<Rightarrow> int \<times> filesystem \<times> session" where
  "main_locked h r0 fs s =
     (case (if io h Take_lock \<noteq> 0 then (r0, fs, s)
            else case load_user_database h fs s of
              (r, s1) \<Rightarrow>
                if r < 0 then (r, fs, s1)
                else case load_group_database h fs s1 of
                  (r, s2) \<Rightarrow>
                    if r < 0 then (r, fs, s2)
                    else (let s3 = reconcile h s2
                          in case write_files h s3 fs of (r, fs') \<Rightarrow> (r, fs', s3))) of
        (r, fs', s') \<Rightarrow> ((if r < 0 then EXIT_FAILURE else EXIT_SUCCESS), fs', s'))"

section \<open>The configuration parser\<close>

text \<open>
  \<open>parse_line\<close> uses helpers of other files (\<open>specifier_printf\<close>, \<open>unquote\<close>,
  \<open>utf8_is_valid\<close>, \<open>path_is_absolute\<close>, \<open>path_kill_slashes\<close>, \<open>parse_uid\<close>, \<open>parse_gid\<close>)
  and \<open>sysconf(_SC_LOGIN_NAME_MAX)\<close>; they are parameters. A helper that can fail gives
  its errno on the left.
\<close>

record helpers =
  specifier_printf :: "string \<Rightarrow> nat + string"
  unquote :: "string \<Rightarrow> string"
  utf8_is_valid :: "string \<Rightarrow> bool"
  path_is_absolute :: "string \<Rightarrow> bool"
  path_kill_slashes :: "string \<Rightarrow> string"
  parse_uid :: "string \<Rightarrow> nat + uid_t"
  parse_gid :: "string \<Rightarrow> nat + gid_t"
  login_name_max :: nat

text \<open>\<open>isspace\<close> in the C locale, and the \<open>WHITESPACE\<close> set that \<open>strspn\<close> is given.\<close>

definition isspace :: "char \<Rightarrow> bool" where
  "isspace c = (c \<in> {CHR '' '', CHR 0x09, CHR 0x0A, CHR 0x0B, CHR 0x0C, CHR 0x0D})"

definition WHITESPACE :: "char set" where
  "WHITESPACE = {CHR '' '', CHR 0x09, CHR 0x0A, CHR 0x0D}"

text \<open>
  One \<open>%ms\<close> conversion: leading white space is skipped, then the longest run of
  non-white-space characters is taken; at the end of the input the conversion fails.
\<close>

definition scan_ms :: "string \<Rightarrow> (string \<times> string) option" where
  "scan_ms inp =
     (let t = dropWhile isspace inp
      in if t = [] then None
         else Some (takeWhile (\<lambda>c. \<not> isspace c) t, dropWhile (\<lambda>c. \<not> isspace c) t))"

text \<open>
  \<open>sscanf(buffer, "%ms %ms %ms %n", &action, &name, &id, &n)\<close>: the number of
  conversions (\<open>EOF\<close>, -1, when the first one fails), the three strings (NULL when not
  converted) and \<open>n\<close>, which keeps its initial -1 unless \<open>%n\<close> is reached.
\<close>

definition sscanf_line :: "string \<Rightarrow> int \<times> string option \<times> string option \<times> string option \<times> int" where
  "sscanf_line buffer =
     (case scan_ms buffer of
        None \<Rightarrow> (- 1, None, None, None, - 1)
      | Some (a, r1) \<Rightarrow>
          (case scan_ms r1 of
             None \<Rightarrow> (1, Some a, None, None, - 1)
           | Some (nm, r2) \<Rightarrow>
               (case scan_ms r2 of
                  None \<Rightarrow> (2, Some a, Some nm, None, - 1)
                | Some (idt, r3) \<Rightarrow>
                    (3, Some a, Some nm, Some idt,
                     int (length buffer) - int (length (dropWhile isspace r3))))))"

definition valid_user_group_name :: "helpers \<Rightarrow> string \<Rightarrow> bool" where
  "valid_user_group_name lib u =
     (case u of
        [] \<Rightarrow> False
      | c # cs \<Rightarrow>
          if \<not> (97 \<le> (of_char c :: nat) \<and> (of_char c :: nat) \<le> 122) \<and>
             \<not> (65 \<le> (of_char c :: nat) \<and> (of_char c :: nat) \<le> 90) \<and>
             c \<noteq> CHR ''_'' then False
          else if \<exists>d \<in> set cs.
                    \<not> (97 \<le> (of_char d :: nat) \<and> (of_char d :: nat) \<le> 122) \<and>
                    \<not> (65 \<le> (of_char d :: nat) \<and> (of_char d :: nat) \<le> 90) \<and>
                    \<not> (48 \<le> (of_char d :: nat) \<and> (of_char d :: nat) \<le> 57) \<and>
                    d \<noteq> CHR ''_'' \<and> d \<noteq> CHR ''-'' then False
          else if length u > login_name_max lib then False
          else True)"

definition valid_gecos :: "helpers \<Rightarrow> string \<Rightarrow> bool" where
  "valid_gecos lib d =
     (if \<not> utf8_is_valid lib d then False
      else if \<exists>c \<in> set d. c = CHR '':'' \<or> c = CHR 0x0A then False
      else True)"

text \<open>\<open>new0(Item, 1)\<close> with the type and the name filled in.\<close>

definition new_item :: "ItemType \<Rightarrow> string \<Rightarrow> Item" where
  "new_item t nm =
     \<lparr>type = t, name = nm, uid_path = None, gid_path = None, description = None,
      gid = 0, uid = 0, gid_set = False, uid_set = False, todo = False\<rparr>"

text \<open>The block \<open>if (n >= 0)\<close>: the description, or the error of an invalid GECOS field.\<close>

definition parse_description :: "helpers \<Rightarrow> string \<Rightarrow> int \<Rightarrow> Item \<Rightarrow> int + Item" where
  "parse_description lib buffer n i =
     (if n \<ge> 0 then
        (let rest = dropWhile (\<lambda>c. c \<in> WHITESPACE) (drop (nat n) buffer)
         in if rest \<noteq> [] \<and> (hd rest \<noteq> CHR ''-'' \<or> tl rest \<noteq> []) then
              (if \<not> valid_gecos lib (unquote lib rest) then Inl (- int EINVAL)
               else Inr (i\<lparr>description := Some (unquote lib rest)\<rparr>))
            else Inr i)
      else Inr i)"

text \<open>The block \<open>if (id && !streq(id, "-"))\<close>.\<close>

definition parse_id :: "helpers \<Rightarrow> string option \<Rightarrow> Item \<Rightarrow> int + Item" where
  "parse_id lib idt i =
     (case idt of
        None \<Rightarrow> Inr i
      | Some x \<Rightarrow>
          if x = ''-'' then Inr i
          else if path_is_absolute lib x then
            (if type i = ADD_USER then Inr (i\<lparr>uid_path := Some (path_kill_slashes lib x)\<rparr>)
             else Inr (i\<lparr>gid_path := Some (path_kill_slashes lib x)\<rparr>))
          else if type i = ADD_USER then
            (case parse_uid lib x of
               Inl e \<Rightarrow> Inl (- int EBADMSG)
             | Inr u \<Rightarrow> Inr (i\<lparr>uid := u, uid_set := True\<rparr>))
          else
            (case parse_gid lib x of
               Inl e \<Rightarrow> Inl (- int EBADMSG)
             | Inr g \<Rightarrow> Inr (i\<lparr>gid := g, gid_set := True\<rparr>)))"

text \<open>
  The end of \<open>parse_line\<close>: an item of that name already declared wins (the comparison
  with \<open>item_equal\<close> only chooses whether a warning is logged), otherwise the item is put
  into the map of its type.
\<close>

definition declare_item :: "Item \<Rightarrow> session \<Rightarrow> int \<times> session" where
  "declare_item i s =
     (if type i = ADD_USER then
        (case hashmap_get (users s) (name i) of
           Some existing \<Rightarrow> (0, s)
         | None \<Rightarrow>
             (case hashmap_put (users s) (name i) i of
                (k, m) \<Rightarrow> if k < 0 then (k, s) else (0, s\<lparr>users := m\<rparr>)))
      else
        (case hashmap_get (groups s) (name i) of
           Some existing \<Rightarrow> (0, s)
         | None \<Rightarrow>
             (case hashmap_put (groups s) (name i) i of
                (k, m) \<Rightarrow> if k < 0 then (k, s) else (0, s\<lparr>groups := m\<rparr>))))"

definition parse_line :: "helpers \<Rightarrow> string \<Rightarrow> session \<Rightarrow> int \<times> session" where
  "parse_line lib buffer s =
     (case sscanf_line buffer of
        (r, action, nm, idt, n) \<Rightarrow>
          if r < 2 then (- int EIO, s)
          else
            (case (action, nm) of
               (Some a, Some nm') \<Rightarrow>
                 if length a \<noteq> 1 then (- int EINVAL, s)
                 else if hd a \<noteq> CHR ''u'' \<and> hd a \<noteq> CHR ''g'' then (- int EBADMSG, s)
                 else
                   (case specifier_printf lib nm' of
                      Inl e \<Rightarrow> (- int e, s)
                    | Inr expanded \<Rightarrow>
                        if \<not> valid_user_group_name lib expanded then (- int EINVAL, s)
                        else
                          (case parse_description lib buffer n
                                  (new_item (if hd a = CHR ''u'' then ADD_USER else ADD_GROUP)
                                     expanded) of
                             Inl e \<Rightarrow> (e, s)
                           | Inr i1 \<Rightarrow>
                               (case parse_id lib idt i1 of
                                  Inl e \<Rightarrow> (e, s)
                                | Inr i2 \<Rightarrow> declare_item i2 s)))
             | _ \<Rightarrow> (- int EIO, s)))"

section \<open>The specification's wording\<close>

text \<open>
  Definitions that follow the words of the specification, to be compared with the code,
  and the concrete hosts and sessions at which statements are evaluated.
\<close>

definition lookup_failed :: "'a lookup \<Rightarrow> bool" where
  "lookup_failed x = (case x of Found a \<Rightarrow> False | Missing e \<Rightarrow> e \<noteq> 0)"

definition uid_free_spec :: "host \<Rightarrow> session \<Rightarrow> uid_t \<Rightarrow> string \<Rightarrow> bool" where
  "uid_free_spec h s u nm =
     (hashmap_get (todo_uids s) (UID_TO_PTR u) = None \<and>
      (case hashmap_get (todo_gids s) (GID_TO_PTR u) of
         None \<Rightarrow> True | Some r \<Rightarrow> name (the_item s r) = nm) \<and>
      \<not> hashmap_contains (database_uid s) (UID_TO_PTR u) \<and>
      (case hashmap_get (database_gid s) (GID_TO_PTR u) of
         None \<Rightarrow> True | Some n \<Rightarrow> n = nm) \<and>
      (arg_root s = None \<longrightarrow>
         (case getpwuid h u of Found p \<Rightarrow> False | Missing e \<Rightarrow> True) \<and>
         (case getgrgid h u of Found g \<Rightarrow> gr_name g = nm | Missing e \<Rightarrow> True)))"

text \<open>
  \<open>uid_free_in_memory\<close>: the four conditions of \<open>uid_is_ok\<close> that concern the session only
  (the two pending sets and the two loaded databases).
\<close>

definition uid_free_in_memory :: "session \<Rightarrow> uid_t \<Rightarrow> string \<Rightarrow> bool" where
  "uid_free_in_memory s u nm =
     (hashmap_get (todo_uids s) (UID_TO_PTR u) = None \<and>
      (case hashmap_get (todo_gids s) (GID_TO_PTR u) of
         None \<Rightarrow> True | Some r \<Rightarrow> name (the_item s r) = nm) \<and>
      \<not> hashmap_contains (database_uid s) (UID_TO_PTR u) \<and>
      (case hashmap_get (database_gid s) (GID_TO_PTR u) of
         None \<Rightarrow> True | Some n \<Rightarrow> n = nm))"

definition quiet_host :: host where
  "quiet_host =
     \<lparr>SYSTEM_UID_MAX = 999, SYSTEM_GID_MAX = 999,
      getpwnam = (\<lambda>n. Missing 0), getpwuid = (\<lambda>u. Missing 0),
      getgrnam = (\<lambda>n. Missing 0), getgrgid = (\<lambda>g. Missing 0),
      getspnam = (\<lambda>n. Missing 0), stat_path = (\<lambda>p. None), io = (\<lambda>c. 0)\<rparr>"

definition fresh_session :: session where
  "fresh_session =
     \<lparr>arg_root = None, users = [], groups = [], todo_uids = [], todo_gids = [],
      database_uid = [], database_user = [], database_gid = [], database_group = [],
      search_uid = 999, search_gid = 999\<rparr>"







text \<open>
  The order of the add-user rules as the specification words it: the resolved GID is tried
  as the UID before the path hint is looked at.
\<close>

definition add_user_gid_first :: "host \<Rightarrow> item_ref \<Rightarrow> session \<Rightarrow> int \<times> session" where
  "add_user_gid_first h r s =
     finish
       (and_then (add_user_database r s) (\<lambda>s.
        and_then (add_user_nss h r s) (\<lambda>s.
        and_then (add_user_suggested h r s) (\<lambda>s.
        and_then (add_user_reuse_gid h r s) (\<lambda>s.
        and_then (add_user_path h r s) (\<lambda>s.
        and_then (add_user_search h r s) (\<lambda>s.
        add_user_todo r s)))))))"

definition foo_item :: Item where
  "foo_item =
     \<lparr>type = ADD_USER, name = ''foo'', uid_path = None, gid_path = None,
      description = Some ''Declared'', gid = 0, uid = 0, gid_set = False, uid_set = False,
      todo = False\<rparr>"

definition foo_session :: session where
  "foo_session = fresh_session\<lparr>users := [(''foo'', foo_item)]\<rparr>"

definition foo_path_session :: session where
  "foo_path_session =
     fresh_session\<lparr>users :=
       [(''foo'', foo_item\<lparr>uid_path := Some ''/var/lib/foo'', gid := 100, gid_set := True\<rparr>)]\<rparr>"

definition foo_path_host :: host where
  "foo_path_host =
     quiet_host\<lparr>stat_path :=
       (\<lambda>p. if p = ''/var/lib/foo'' then Some \<lparr>st_uid = 61, st_gid = 61\<rparr> else None)\<rparr>"

definition shadow_host :: host where
  "shadow_host = quiet_host\<lparr>getspnam := (\<lambda>n. if n = ''foo'' then Found () else Missing 0)\<rparr>"

definition nss_host :: host where
  "nss_host =
     quiet_host\<lparr>getpwnam :=
       (\<lambda>n. if n = ''foo'' then
               Found \<lparr>pw_name = ''foo'', pw_passwd = ''x'', pw_uid = 812, pw_gid = 812,
                      pw_gecos = Some ''Existing'', pw_dir = ''/'', pw_shell = ''/sbin/nologin''\<rparr>
             else Missing 0)\<rparr>"

text \<open>The state a block ends in, and the order on the two allocator cursors.\<close>

definition step_state :: "'a step \<Rightarrow> 'a" where
  "step_state x = (case x of Return r s \<Rightarrow> s | Continue s \<Rightarrow> s)"

definition cursor_le :: "session \<Rightarrow> session \<Rightarrow> bool" where
  "cursor_le s' s = (search_uid s' \<le> search_uid s \<and> search_gid s' \<le> search_gid s)"

definition no_files :: filesystem where
  "no_files =
     \<lparr>etc_passwd = None, etc_group = None, etc_passwd_backup = None, etc_group_backup = None,
      passwd_tmp = None, group_tmp = None\<rparr>"

text \<open>
  \<open>copy_groups_test\<close> and \<open>copy_users_test\<close> are the two tests the copy loops of
  \<open>write_files\<close> apply to an entry of the existing file, taken out of \<open>copy_groups\<close> and
  \<open>copy_users\<close>: the name is looked up in \<open>groups\<close> (in \<open>users\<close>) and the item found
  has its \<open>todo\<close> flag set, or the ID is a key of the pending set. \<open>same_files\<close> says that
  the two account files and their backups have the same content.
\<close>

definition copy_groups_test :: "session \<Rightarrow> group \<Rightarrow> bool" where
  "copy_groups_test s gr =
     ((case hashmap_get (groups s) (gr_name gr) of Some i \<Rightarrow> todo i | None \<Rightarrow> False) \<or>
      hashmap_contains (todo_gids s) (GID_TO_PTR (gr_gid gr)))"

definition copy_users_test :: "session \<Rightarrow> passwd \<Rightarrow> bool" where
  "copy_users_test s pw =
     ((case hashmap_get (users s) (pw_name pw) of Some i \<Rightarrow> todo i | None \<Rightarrow> False) \<or>
      hashmap_contains (todo_uids s) (UID_TO_PTR (pw_uid pw)))"

definition same_files :: "filesystem \<Rightarrow> filesystem \<Rightarrow> bool" where
  "same_files fs' fs =
     (etc_passwd fs' = etc_passwd fs \<and> etc_group fs' = etc_group fs \<and>
      etc_passwd_backup fs' = etc_passwd_backup fs \<and>
      etc_group_backup fs' = etc_group_backup fs)"

definition returns_negative :: "'a step \<Rightarrow> bool" where
  "returns_negative x = (case x of Return k a \<Rightarrow> k < 0 | Continue a \<Rightarrow> True)"


definition bin_passwd :: passwd where
  "bin_passwd =
     \<lparr>pw_name = ''bin'', pw_passwd = ''x'', pw_uid = 1, pw_gid = 1, pw_gecos = Some ''bin'',
      pw_dir = ''/bin'', pw_shell = ''/sbin/nologin''\<rparr>"










definition adm_item :: Item where
  "adm_item =
     \<lparr>type = ADD_GROUP, name = ''adm'', uid_path = None, gid_path = None,
      description = None, gid = 5, uid = 0, gid_set = True, uid_set = False, todo = True\<rparr>"

definition adm_group :: group where
  "adm_group = \<lparr>gr_name = ''adm'', gr_passwd = ''x'', gr_gid = 7, gr_mem = []\<rparr>"

definition clash_session :: session where
  "clash_session =
     fresh_session\<lparr>groups := [(''adm'', adm_item)],
                    todo_gids := [(GID_TO_PTR 5, (ADD_GROUP, ''adm''))]\<rparr>"

definition clash_files :: filesystem where
  "clash_files = no_files\<lparr>etc_group := Some [adm_group]\<rparr>"

text \<open>
  A field of a configuration line (a non-empty run without white space), the white space
  between two fields, and helpers that leave names and descriptions as they are.
\<close>

definition token :: "string \<Rightarrow> bool" where
  "token t = (t \<noteq> [] \<and> (\<forall>c \<in> set t. \<not> isspace c))"

definition blank :: "string \<Rightarrow> bool" where
  "blank w = (w \<noteq> [] \<and> (\<forall>c \<in> set w. isspace c))"

definition plain_helpers :: helpers where
  "plain_helpers =
     \<lparr>specifier_printf = (\<lambda>n. Inr n), unquote = (\<lambda>d. d), utf8_is_valid = (\<lambda>d. True),
      path_is_absolute = (\<lambda>p. p \<noteq> [] \<and> hd p = CHR ''/''), path_kill_slashes = (\<lambda>p. p),
      parse_uid = (\<lambda>x. Inl 22), parse_gid = (\<lambda>x. Inl 22), login_name_max = 256\<rparr>"

text \<open>
  The consistency of the pending sets: every entry of \<open>todo_gids\<close> (\<open>todo_uids\<close>) refers to
  an existing item whose GID (UID) is set, whose \<open>todo\<close> flag is set and whose GID (UID) is
  the key of the entry; \<open>todo_uids\<close> holds user items only. \<open>well_typed\<close> says that an item
  sits in the map of its type, as \<open>parse_line\<close> puts it. The other predicates describe
  what one call may change: \<open>grp_eff\<close> and \<open>usr_eff\<close> a change of one item that keeps its
  user (group) side, \<open>grp_outcome\<close> and \<open>usr_outcome\<close> the same followed or not by the
  insertion into the pending set, \<open>grows\<close> that the pending sets only gain entries and
  the declared items stay declared.
\<close>

definition pending_inv :: "session \<Rightarrow> bool" where
  "pending_inv s =
     ((\<forall>(k, r) \<in> set (todo_gids s).
         \<exists>i. item_at s r = Some i \<and> gid_set i \<and> todo i \<and> k = GID_TO_PTR (gid i)) \<and>
      (\<forall>(k, r) \<in> set (todo_uids s).
         fst r = ADD_USER \<and>
         (\<exists>i. item_at s r = Some i \<and> uid_set i \<and> todo i \<and> k = UID_TO_PTR (uid i))))"

definition well_typed :: "session \<Rightarrow> bool" where
  "well_typed s = (\<forall>r i. item_at s r = Some i \<longrightarrow> type i = fst r)"

definition grp_eff :: "item_ref \<Rightarrow> session \<Rightarrow> session \<Rightarrow> bool" where
  "grp_eff r s s' =
     (todo_uids s' = todo_uids s \<and> todo_gids s' = todo_gids s \<and>
      (\<forall>r'. r' \<noteq> r \<longrightarrow> item_at s' r' = item_at s r') \<and>
      (\<exists>i i'. item_at s r = Some i \<and> item_at s' r = Some i' \<and> uid i' = uid i \<and>
         uid_set i' = uid_set i \<and> todo i' = todo i \<and> type i' = type i \<and> name i' = name i))"

definition usr_eff :: "item_ref \<Rightarrow> session \<Rightarrow> session \<Rightarrow> bool" where
  "usr_eff r s s' =
     (todo_uids s' = todo_uids s \<and> todo_gids s' = todo_gids s \<and>
      (\<forall>r'. r' \<noteq> r \<longrightarrow> item_at s' r' = item_at s r') \<and>
      (\<exists>i i'. item_at s r = Some i \<and> item_at s' r = Some i' \<and> gid i' = gid i \<and>
         gid_set i' = gid_set i \<and> todo i' = todo i \<and> type i' = type i \<and> name i' = name i))"

definition grp_outcome :: "item_ref \<Rightarrow> session \<Rightarrow> session \<Rightarrow> bool" where
  "grp_outcome r s0 s' =
     (grp_eff r s0 s' \<or>
      (\<exists>s6 i6. grp_eff r s0 s6 \<and> item_at s6 r = Some i6 \<and> gid_set i6 \<and>
         s' = set_item r (\<lambda>i. i\<lparr>todo := True\<rparr>)
                (s6\<lparr>todo_gids := todo_gids s6 @ [(GID_TO_PTR (gid i6), r)]\<rparr>)))"

definition usr_outcome :: "item_ref \<Rightarrow> session \<Rightarrow> session \<Rightarrow> bool" where
  "usr_outcome r s0 s' =
     (usr_eff r s0 s' \<or>
      (\<exists>s6 i6. usr_eff r s0 s6 \<and> item_at s6 r = Some i6 \<and> uid_set i6 \<and>
         s' = set_item r (\<lambda>i. i\<lparr>todo := True\<rparr>)
                (s6\<lparr>todo_uids := todo_uids s6 @ [(UID_TO_PTR (uid i6), r)]\<rparr>)))"

definition grows :: "session \<Rightarrow> session \<Rightarrow> bool" where
  "grows s s' =
     (set (todo_gids s) \<subseteq> set (todo_gids s') \<and> set (todo_uids s) \<subseteq> set (todo_uids s') \<and>
      (\<forall>r. (item_at s' r = None) = (item_at s r = None)) \<and>
      (\<forall>r i i'. item_at s r = Some i \<longrightarrow> item_at s' r = Some i' \<longrightarrow> type i' = type i))"

definition item_keys :: "session \<Rightarrow> string list \<times> string list" where
  "item_keys s = (map fst (users s), map fst (groups s))"

definition httpd_item :: Item where
  "httpd_item =
     \<lparr>type = ADD_USER, name = ''httpd'', uid_path = None, gid_path = None,
      description = Some ''HTTP server'', gid = 0, uid = 0, gid_set = False, uid_set = False,
      todo = False\<rparr>"

definition httpd_session :: session where
  "httpd_session = fresh_session\<lparr>users := [(''httpd'', httpd_item)]\<rparr>"

text \<open>
  \<open>pending_le\<close>: no entry of a pending set is lost. \<open>frozen s s'\<close>: every entry of the
  pending sets of \<open>s\<close> is an entry of those of \<open>s'\<close>, and in both sessions the item's ID
  is the key it is queued under. \<open>one_key_each\<close>: an item is held by a pending set under at
  most one key, and \<open>todo_uids\<close> holds user items only.
\<close>

definition pending_le :: "session \<Rightarrow> session \<Rightarrow> bool" where
  "pending_le s s' =
     (set (todo_gids s) \<subseteq> set (todo_gids s') \<and> set (todo_uids s) \<subseteq> set (todo_uids s'))"

definition frozen :: "session \<Rightarrow> session \<Rightarrow> bool" where
  "frozen s s' =
     ((\<forall>(k, r) \<in> set (todo_gids s).
         (k, r) \<in> set (todo_gids s') \<and> GID_TO_PTR (gid (the_item s r)) = k \<and>
         GID_TO_PTR (gid (the_item s' r)) = k) \<and>
      (\<forall>(k, r) \<in> set (todo_uids s).
         (k, r) \<in> set (todo_uids s') \<and> UID_TO_PTR (uid (the_item s r)) = k \<and>
         UID_TO_PTR (uid (the_item s' r)) = k))"

definition one_key_each :: "session \<Rightarrow> bool" where
  "one_key_each s =
     ((\<forall>k k' r. (k, r) \<in> set (todo_gids s) \<and> (k', r) \<in> set (todo_gids s) \<longrightarrow> k = k') \<and>
      (\<forall>k k' r. (k, r) \<in> set (todo_uids s) \<and> (k', r) \<in> set (todo_uids s) \<longrightarrow> k = k') \<and>
      (\<forall>k r. (k, r) \<in> set (todo_uids s) \<longrightarrow> fst r = ADD_USER))"

text \<open>
  \<open>user_side r s\<close>: what \<open>add_user\<close> reads of the session before it looks at an ID, and
  the pending set it writes: the alternate root, the loaded passwd names, \<open>todo_uids\<close>
  and the name of the item \<open>r\<close>.
\<close>

definition user_side ::
    "item_ref \<Rightarrow> session \<Rightarrow>
       string option \<times> (string, ptr) Hashmap \<times> (ptr, item_ref) Hashmap \<times> string option" where
  "user_side r s = (arg_root s, database_user s, todo_uids s, map_option name (item_at s r))"

text \<open>
  The collision condition of the specification for an entry copied from the existing
  \<open>/etc/group\<close>: the entry's name is the name of an item held by the pending set of the
  table, \<open>todo_gids\<close>, or the entry's GID is a key of that set. The run that follows has an
  alternate root, the user item \<open>httpd\<close> with no ID, and an existing group file with the
  one line \<open>httpd:x:4294967295:\<close>.
\<close>

definition group_collides :: "session \<Rightarrow> group \<Rightarrow> bool" where
  "group_collides s gr =
     (list_ex (\<lambda>(k, r). name (the_item s r) = gr_name gr) (todo_gids s) \<or>
      hashmap_contains (todo_gids s) (GID_TO_PTR (gr_gid gr)))"

definition httpd_max_group :: group where
  "httpd_max_group =
     \<lparr>gr_name = ''httpd'', gr_passwd = ''x'', gr_gid = 4294967295, gr_mem = []\<rparr>"

definition rooted_session :: session where
  "rooted_session = httpd_session\<lparr>arg_root := Some ''/mnt''\<rparr>"

definition rooted_files :: filesystem where
  "rooted_files = no_files\<lparr>etc_group := Some [httpd_max_group]\<rparr>"


section \<open>Properties\<close>

lemmas errno_defs = ENOENT_def EIO_def E2BIG_def ENOMEM_def EEXIST_def EINVAL_def EBADMSG_def

declare scan_uid.simps [simp del] scan_gid.simps [simp del]

subsection \<open>Items and the store\<close>

lemma map_of_hashmap_modify:
  "map_of (hashmap_modify h k f) k' = (if k' = k then map_option f (map_of h k) else map_of h k')"
  by (induction h) (auto simp: hashmap_modify_def)

lemma item_at_set_item:
  "item_at (set_item r f s) r' = (if r' = r then map_option f (item_at s r) else item_at s r')"
  by (cases r; cases r'; cases "fst r"; cases "fst r'")
     (auto simp: item_at_def set_item_def hashmap_get_def map_of_hashmap_modify)

lemma the_item_set_item_same:
  "item_at s r = Some i \<Longrightarrow> the_item (set_item r f s) r = f i"
  by (simp add: the_item_def item_at_set_item)

lemma the_item_set_item_other:
  "r' \<noteq> r \<Longrightarrow> the_item (set_item r f s) r' = the_item s r'"
  by (simp add: the_item_def item_at_set_item)

lemma set_item_fields [simp]:
  "arg_root (set_item r f s) = arg_root s"
  "todo_uids (set_item r f s) = todo_uids s"
  "todo_gids (set_item r f s) = todo_gids s"
  "database_uid (set_item r f s) = database_uid s"
  "database_user (set_item r f s) = database_user s"
  "database_gid (set_item r f s) = database_gid s"
  "database_group (set_item r f s) = database_group s"
  "search_uid (set_item r f s) = search_uid s"
  "search_gid (set_item r f s) = search_gid s"
  by (cases "fst r"; simp add: set_item_def)+

lemma item_at_frame [simp]:
  "item_at (s\<lparr>todo_uids := a\<rparr>) r = item_at s r"
  "item_at (s\<lparr>todo_gids := a\<rparr>) r = item_at s r"
  "item_at (s\<lparr>search_uid := c\<rparr>) r = item_at s r"
  "item_at (s\<lparr>search_gid := c\<rparr>) r = item_at s r"
  by (cases "fst r"; simp add: item_at_def)+

lemma the_item_Some: "item_at s r = Some i \<Longrightarrow> the_item s r = i"
  by (simp add: the_item_def)

lemma name_the_item_set_item:
  "(\<And>i. name (f i) = name i) \<Longrightarrow> name (the_item (set_item r f s) r') = name (the_item s r')"
  by (cases "item_at s r") (auto simp: the_item_def item_at_set_item)

lemma uid_is_ok_set_item:
  "(\<And>i. name (f i) = name i) \<Longrightarrow> uid_is_ok h (set_item r f s) u nm = uid_is_ok h s u nm"
  by (simp add: uid_is_ok_def name_the_item_set_item cong: option.case_cong)

lemma gid_is_ok_set_item:
  "gid_is_ok h (set_item r f s) g = gid_is_ok h s g"
  by (simp add: gid_is_ok_def)

lemma read_id_from_file_cong:
  assumes "arg_root s' = arg_root s" and "uid_path i' = uid_path i"
    and "gid_path i' = gid_path i"
  shows "read_id_from_file h s' i' wu wg = read_id_from_file h s i wu wg"
proof -
  have eq: "root_stat h s' = root_stat h s"
    by (rule ext) (simp add: root_stat_def fix_root_def assms)
  show ?thesis
    unfolding read_id_from_file_def assms eq by (rule refl)
qed

lemma uid_is_ok_free_not_pending:
  "uid_is_ok h s u nm = 1 \<Longrightarrow> map_of (todo_uids s) (UID_TO_PTR u) = None"
  by (cases "map_of (todo_uids s) (UID_TO_PTR u)") (simp_all add: uid_is_ok_def hashmap_get_def)

lemma add_user_path_accepts:
  assumes i: "item_at s r = Some i" and nset: "\<not> uid_set i"
    and rd: "read_id_from_file h s i True False = (k, Some c, cg)" and k: "0 < k"
    and c: "0 < c" "c \<le> SYSTEM_UID_MAX h"
    and ok: "uid_is_ok h s c (name i) = 1"
  shows "add_user_path h r s = Continue (set_item r (\<lambda>i. i\<lparr>uid := c, uid_set := True\<rparr>) s)"
  using assms
  by (simp add: add_user_path_def the_item_Some Let_def word_greater_zero_iff not_less [symmetric])

lemma add_user_tail_when_set:
  assumes i: "item_at s r = Some i" and set: "uid_set i"
    and free: "map_of (todo_uids s) (UID_TO_PTR (uid i)) = None"
  shows "finish (and_then (add_user_reuse_gid h r s) (\<lambda>s.
           and_then (add_user_search h r s) (\<lambda>s. add_user_todo r s))) =
         (0, set_item r (\<lambda>i. i\<lparr>todo := True\<rparr>)
               (s\<lparr>todo_uids := todo_uids s @ [(UID_TO_PTR (uid i), r)]\<rparr>))"
  using assms
  by (simp add: add_user_reuse_gid_def add_user_search_def add_user_todo_def the_item_Some
        and_then_def finish_def hashmap_put_def Let_def)

subsection \<open>uid_is_ok\<close>

text \<open>
  C3 (as amended). \<open>uid_is_ok\<close> returns 1 ("free") exactly when the five conditions of
  the specification hold and, with the name-service probe enabled, neither \<open>getpwuid\<close>
  nor \<open>getgrgid\<close> fails with an error. When the four conditions on the session hold and
  the probe is enabled, a \<open>getpwuid\<close> that fails with \<open>errno = e\<close> makes the result \<open>-e\<close>,
  and so does a \<open>getgrgid\<close> that fails after \<open>getpwuid\<close> found no user.
\<close>

theorem uid_is_ok_free_or_error:
  "(uid_is_ok h s u nm = 1 \<longleftrightarrow>
      uid_free_spec h s u nm \<and>
      (arg_root s = None \<longrightarrow>
         \<not> lookup_failed (getpwuid h u) \<and> \<not> lookup_failed (getgrgid h u))) \<and>
   (uid_free_in_memory s u nm \<and> arg_root s = None \<and> getpwuid h u = Missing e \<and> e \<noteq> 0 \<longrightarrow>
      uid_is_ok h s u nm = - int e) \<and>
   (uid_free_in_memory s u nm \<and> arg_root s = None \<and> getpwuid h u = Missing 0 \<and>
    getgrgid h u = Missing e \<and> e \<noteq> 0 \<longrightarrow>
      uid_is_ok h s u nm = - int e)"
  by (cases "hashmap_get (todo_uids s) (UID_TO_PTR u)";
      cases "hashmap_get (todo_gids s) (GID_TO_PTR u)";
      cases "hashmap_get (database_gid s) (GID_TO_PTR u)";
      cases "arg_root s"; cases "getpwuid h u"; cases "getgrgid h u";
      simp add: uid_is_ok_def uid_free_spec_def uid_free_in_memory_def lookup_failed_def)

theorem uid_is_ok_free_or_error_witness:
  "uid_is_ok quiet_host fresh_session 61 ''foo'' = 1 \<and>
   uid_is_ok (quiet_host\<lparr>getpwuid := (\<lambda>u. Missing 13)\<rparr>) fresh_session 61 ''foo'' = - 13 \<and>
   uid_is_ok (quiet_host\<lparr>getgrgid := (\<lambda>g. Missing 5)\<rparr>) fresh_session 61 ''foo'' = - 5"
  using uid_is_ok_free_or_error [of quiet_host fresh_session 61 "''foo''" 0]
    uid_is_ok_free_or_error [of "quiet_host\<lparr>getpwuid := (\<lambda>u. Missing 13)\<rparr>" fresh_session 61
      "''foo''" 13]
    uid_is_ok_free_or_error [of "quiet_host\<lparr>getgrgid := (\<lambda>g. Missing 5)\<rparr>" fresh_session 61
      "''foo''" 5]
  by (simp add: uid_free_spec_def uid_free_in_memory_def lookup_failed_def quiet_host_def
        fresh_session_def hashmap_get_def hashmap_contains_def)

theorem uid_is_ok_probe_error_counterexample:
  "uid_free_spec (quiet_host\<lparr>getgrgid := (\<lambda>g. Missing 5)\<rparr>) fresh_session 61 ''foo'' \<and>
   uid_is_ok (quiet_host\<lparr>getgrgid := (\<lambda>g. Missing 5)\<rparr>) fresh_session 61 ''foo'' = - 5"
  by (simp add: uid_free_spec_def uid_is_ok_def quiet_host_def fresh_session_def
        hashmap_get_def hashmap_contains_def)

subsection \<open>gid_is_ok\<close>




subsection \<open>add_user\<close>

lemma add_user_shadow_abort:
  assumes "item_at s r = Some i"
    and "hashmap_get (database_user s) (name i) = None"
    and "arg_root s = None"
    and "getpwnam h (name i) = Missing 0"
    and "getspnam h (name i) = Found sp"
  shows "add_user h r s = (- int EBADMSG, s)"
  using assms
  by (simp add: add_user_def add_user_database_def add_user_nss_def the_item_Some
        ptr_value_def and_then_def finish_def)

text \<open>
  C10. With no alternate root, a user item whose name is not in the loaded passwd
  database but is found by \<open>getpwnam\<close>: \<open>add_user\<close> returns 0, the pending sets are
  unchanged, and the item's description is replaced by the GECOS field of the entry found.
\<close>

theorem add_user_nss_overwrites_description:
  assumes "item_at s r = Some i"
    and "hashmap_get (database_user s) (name i) = None"
    and "arg_root s = None"
    and "getpwnam h (name i) = Found p"
  shows "fst (add_user h r s) = 0 \<and>
         todo_uids (snd (add_user h r s)) = todo_uids s \<and>
         todo_gids (snd (add_user h r s)) = todo_gids s \<and>
         description (the_item (snd (add_user h r s)) r) = pw_gecos p"
  using assms
  by (simp add: add_user_def add_user_database_def add_user_nss_def the_item_Some
        ptr_value_def and_then_def finish_def the_item_set_item_same)

theorem add_user_nss_overwrites_description_witness:
  "description (the_item foo_session (ADD_USER, ''foo'')) = Some ''Declared'' \<and>
   fst (add_user nss_host (ADD_USER, ''foo'') foo_session) = 0 \<and>
   todo_uids (snd (add_user nss_host (ADD_USER, ''foo'') foo_session)) = [] \<and>
   description (the_item (snd (add_user nss_host (ADD_USER, ''foo'') foo_session))
                  (ADD_USER, ''foo'')) = Some ''Existing''"
  using add_user_nss_overwrites_description [of foo_session "(ADD_USER, ''foo'')" foo_item
      nss_host "\<lparr>pw_name = ''foo'', pw_passwd = ''x'', pw_uid = 812, pw_gid = 812,
                      pw_gecos = Some ''Existing'', pw_dir = ''/'', pw_shell = ''/sbin/nologin''\<rparr>"]
  by (simp add: nss_host_def quiet_host_def foo_session_def foo_item_def fresh_session_def
        item_at_def the_item_def hashmap_get_def)

text \<open>
  C6 (as amended). In \<open>add_user\<close> the path hint comes before the reuse of the GID: when
  the literal UID is absent or rejected and the hint path yields a UID in
  \<open>(0, SYSTEM_UID_MAX]\<close> that \<open>uid_is_ok\<close> accepts, that UID is assigned and queued,
  whatever GID the item carries.
\<close>

theorem add_user_path_before_gid:
  assumes i: "item_at s r = Some i"
    and db: "hashmap_get (database_user s) (name i) = None"
    and nss: "arg_root s \<noteq> None \<or>
              (getpwnam h (name i) = Missing 0 \<and> getspnam h (name i) = Missing 0)"
    and lit: "\<not> uid_set i \<or> uid_is_ok h s (uid i) (name i) = 0"
    and rd: "read_id_from_file h s i True False = (k, Some c, cg)" and k: "0 < k"
    and c: "0 < c" "c \<le> SYSTEM_UID_MAX h"
    and ok: "uid_is_ok h s c (name i) = 1"
  shows "fst (add_user h r s) = 0 \<and>
         uid (the_item (snd (add_user h r s)) r) = c \<and>
         hashmap_get (todo_uids (snd (add_user h r s))) (UID_TO_PTR c) = Some r"
proof -
  define s1 where "s1 = (if uid_set i then set_item r (\<lambda>i. i\<lparr>uid_set := False\<rparr>) s else s)"
  define i1 where "i1 = i\<lparr>uid_set := False\<rparr>"
  define s2 where "s2 = set_item r (\<lambda>i. i\<lparr>uid := c, uid_set := True\<rparr>) s1"
  define i2 where "i2 = i1\<lparr>uid := c, uid_set := True\<rparr>"
  have b1: "add_user_database r s = Continue s"
    using i db by (simp add: add_user_database_def the_item_Some ptr_value_def)
  have b2: "add_user_nss h r s = Continue s"
    using i nss by (auto simp: add_user_nss_def the_item_Some)
  have b3: "add_user_suggested h r s = Continue s1"
    using i lit by (auto simp: add_user_suggested_def the_item_Some s1_def Let_def)
  have it1: "item_at s1 r = Some i1"
    using i by (cases "uid_set i") (auto simp: s1_def i1_def item_at_set_item)
  have root1: "arg_root s1 = arg_root s"
    by (simp add: s1_def)
  have rd1: "read_id_from_file h s1 i1 True False = (k, Some c, cg)"
    using rd read_id_from_file_cong [of s1 s i1 i h True False] root1
    by (simp add: i1_def)
  have ok1: "uid_is_ok h s1 c (name i1) = 1"
    using ok by (simp add: s1_def i1_def uid_is_ok_set_item)
  have b4: "add_user_path h r s1 = Continue s2"
    unfolding s2_def
    by (rule add_user_path_accepts [OF it1 _ rd1 k c ok1]) (simp add: i1_def)
  have it2: "item_at s2 r = Some i2"
    using it1 by (simp add: s2_def i2_def item_at_set_item)
  have ok2: "uid_is_ok h s2 c (name i1) = 1"
    using ok1 by (simp add: s2_def uid_is_ok_set_item)
  have free2: "map_of (todo_uids s2) (UID_TO_PTR (uid i2)) = None"
    using uid_is_ok_free_not_pending [OF ok2] by (simp add: i2_def)
  have tail: "finish (and_then (add_user_reuse_gid h r s2) (\<lambda>s.
           and_then (add_user_search h r s) (\<lambda>s. add_user_todo r s))) =
         (0, set_item r (\<lambda>i. i\<lparr>todo := True\<rparr>)
               (s2\<lparr>todo_uids := todo_uids s2 @ [(UID_TO_PTR (uid i2), r)]\<rparr>))"
    by (rule add_user_tail_when_set [OF it2 _ free2]) (simp add: i2_def)
  have res: "add_user h r s =
         (0, set_item r (\<lambda>i. i\<lparr>todo := True\<rparr>)
               (s2\<lparr>todo_uids := todo_uids s2 @ [(UID_TO_PTR (uid i2), r)]\<rparr>))"
    using tail by (simp add: add_user_def b1 b2 b3 b4 and_then_def)
  have it2': "item_at (s2\<lparr>todo_uids := todo_uids s2 @ [(UID_TO_PTR (uid i2), r)]\<rparr>) r = Some i2"
    using it2 by simp
  have u: "uid i2 = c"
    by (simp add: i2_def)
  have fin: "the_item (set_item r (\<lambda>i. i\<lparr>todo := True\<rparr>)
               (s2\<lparr>todo_uids := todo_uids s2 @ [(UID_TO_PTR (uid i2), r)]\<rparr>)) r =
             i2\<lparr>todo := True\<rparr>"
    by (rule the_item_set_item_same [OF it2'])
  show ?thesis
    using free2 u fin
    by (simp add: res hashmap_get_def map_add_Some_iff)
qed

theorem add_user_path_before_gid_witness:
  "uid (the_item (snd (add_user foo_path_host (ADD_USER, ''foo'') foo_path_session))
          (ADD_USER, ''foo'')) = 61"
  using add_user_path_before_gid [of foo_path_session "(ADD_USER, ''foo'')"
      "foo_item\<lparr>uid_path := Some ''/var/lib/foo'', gid := 100, gid_set := True\<rparr>"
      foo_path_host 1 61 None]
  by (simp add: foo_path_session_def foo_path_host_def foo_item_def fresh_session_def
        quiet_host_def item_at_def hashmap_get_def hashmap_contains_def read_id_from_file_def
        root_stat_def fix_root_def uid_is_ok_def)

theorem add_user_gid_first_counterexample:
  "uid (the_item (snd (add_user foo_path_host (ADD_USER, ''foo'') foo_path_session))
          (ADD_USER, ''foo'')) = 61 \<and>
   uid (the_item (snd (add_user_gid_first foo_path_host (ADD_USER, ''foo'') foo_path_session))
          (ADD_USER, ''foo'')) = 100"
  by (simp add: add_user_def add_user_gid_first_def add_user_database_def add_user_nss_def
        add_user_suggested_def add_user_path_def add_user_reuse_gid_def add_user_search_def
        add_user_todo_def and_then_def finish_def ptr_value_def hashmap_put_def
        foo_path_session_def foo_path_host_def foo_item_def fresh_session_def
        quiet_host_def the_item_def item_at_def set_item_def hashmap_modify_def
        hashmap_get_def hashmap_contains_def read_id_from_file_def
        root_stat_def fix_root_def uid_is_ok_def UID_TO_PTR_def GID_TO_PTR_def)

subsection \<open>The allocator cursors\<close>

lemma step_state_simps [simp]:
  "step_state (Return k s) = s" "step_state (Continue s) = s"
  by (simp_all add: step_state_def)

lemma snd_finish [simp]: "snd (finish x) = step_state x"
  by (cases x) (simp_all add: finish_def)

lemma cursor_le_refl [simp]: "cursor_le s s"
  by (simp add: cursor_le_def)

lemma cursor_le_trans: "cursor_le s2 s1 \<Longrightarrow> cursor_le s1 s \<Longrightarrow> cursor_le s2 s"
  by (auto simp: cursor_le_def)

lemma cursor_le_set_item [simp]: "cursor_le (set_item r f s) s' = cursor_le s s'"
  by (simp add: cursor_le_def)

lemma cursor_le_and_then:
  assumes "cursor_le (step_state x) s"
    and "\<And>s1. cursor_le (step_state (g s1)) s1"
  shows "cursor_le (step_state (and_then x g)) s"
proof (cases x)
  case (Return k s1)
  then show ?thesis using assms(1) by (simp add: and_then_def)
next
  case (Continue s1)
  then show ?thesis
    using assms(1) assms(2) [of s1] by (auto simp: and_then_def intro: cursor_le_trans)
qed

lemma uid_is_ok_search_uid [simp]:
  "uid_is_ok h (s\<lparr>search_uid := c\<rparr>) u nm = uid_is_ok h s u nm"
  by (simp add: uid_is_ok_def the_item_def cong: option.case_cong)

lemma gid_is_ok_search_gid [simp]:
  "gid_is_ok h (s\<lparr>search_gid := c\<rparr>) g = gid_is_ok h s g"
  by (simp add: gid_is_ok_def)

lemma word_pred_le: "(c::32 word) \<noteq> 0 \<Longrightarrow> c - 1 \<le> c"
  by (simp add: word_le_nat_alt unat_minus_one)

lemma word_pred_less: "(c::32 word) \<noteq> 0 \<Longrightarrow> c - 1 < c"
  by (simp add: word_less_nat_alt unat_minus_one unat_gt_0)

lemma scan_uid_result:
  "\<exists>c. c \<le> search_uid s \<and>
       ((c \<noteq> 0 \<and> uid_is_ok h s c nm < 0 \<and>
         scan_uid h nm s = Return (uid_is_ok h s c nm) (s\<lparr>search_uid := c\<rparr>)) \<or>
        (scan_uid h nm s = Continue (s\<lparr>search_uid := c\<rparr>) \<and>
         (c = 0 \<or> 0 < uid_is_ok h s c nm)))"
proof (induction h nm s rule: scan_uid.induct)
  case (1 h nm s)
  show ?case
  proof (cases "search_uid s > 0")
    case False
    then have "scan_uid h nm s = Continue (s\<lparr>search_uid := search_uid s\<rparr>)"
      by (simp add: scan_uid.simps [of h nm s])
    moreover from False have "search_uid s = 0"
      by (simp add: word_greater_zero_iff)
    ultimately show ?thesis by (intro exI [of _ "search_uid s"]) simp
  next
    case pos: True
    consider (err) "uid_is_ok h s (search_uid s) nm < 0"
      | (free) "uid_is_ok h s (search_uid s) nm > 0"
      | (taken) "uid_is_ok h s (search_uid s) nm = 0"
      by linarith
    then show ?thesis
    proof cases
      case err
      then have "scan_uid h nm s = Return (uid_is_ok h s (search_uid s) nm) (s\<lparr>search_uid := search_uid s\<rparr>)"
        using pos by (simp add: scan_uid.simps [of h nm s])
      then show ?thesis using err pos
        by (intro exI [of _ "search_uid s"]) (auto simp: word_greater_zero_iff)
    next
      case free
      then have "scan_uid h nm s = Continue (s\<lparr>search_uid := search_uid s\<rparr>)"
        using pos by (simp add: scan_uid.simps [of h nm s])
      then show ?thesis using free by (intro exI [of _ "search_uid s"]) auto
    next
      case taken
      have eq: "scan_uid h nm s = scan_uid h nm (s\<lparr>search_uid := search_uid s - 1\<rparr>)"
        using pos taken by (simp add: scan_uid.simps [of h nm s])
      from "1.IH" [OF pos refl _ _ ] taken
      obtain c where c: "c \<le> search_uid s - 1"
        and d: "(c \<noteq> 0 \<and> uid_is_ok h s c nm < 0 \<and>
                 scan_uid h nm (s\<lparr>search_uid := search_uid s - 1\<rparr>) =
                   Return (uid_is_ok h s c nm) (s\<lparr>search_uid := c\<rparr>)) \<or>
                (scan_uid h nm (s\<lparr>search_uid := search_uid s - 1\<rparr>) =
                   Continue (s\<lparr>search_uid := c\<rparr>) \<and> (c = 0 \<or> 0 < uid_is_ok h s c nm))"
        by auto
      have "search_uid s - 1 \<le> search_uid s"
        using pos by (simp add: word_pred_le word_greater_zero_iff)
      with c have "c \<le> search_uid s" by simp
      then show ?thesis using d eq by (intro exI [of _ c]) auto
    qed
  qed
qed

lemma scan_gid_result:
  "\<exists>c. c \<le> search_gid s \<and>
       ((c \<noteq> 0 \<and> gid_is_ok h s c < 0 \<and>
         scan_gid h s = Return (gid_is_ok h s c) (s\<lparr>search_gid := c\<rparr>)) \<or>
        (scan_gid h s = Continue (s\<lparr>search_gid := c\<rparr>) \<and>
         (c = 0 \<or> 0 < gid_is_ok h s c)))"
proof (induction h s rule: scan_gid.induct)
  case (1 h s)
  show ?case
  proof (cases "search_gid s > 0")
    case False
    then have "scan_gid h s = Continue (s\<lparr>search_gid := search_gid s\<rparr>)"
      by (simp add: scan_gid.simps [of h s])
    moreover from False have "search_gid s = 0"
      by (simp add: word_greater_zero_iff)
    ultimately show ?thesis by (intro exI [of _ "search_gid s"]) simp
  next
    case pos: True
    consider (err) "gid_is_ok h s (search_gid s) < 0"
      | (free) "gid_is_ok h s (search_gid s) > 0"
      | (taken) "gid_is_ok h s (search_gid s) = 0"
      by linarith
    then show ?thesis
    proof cases
      case err
      then have "scan_gid h s = Return (gid_is_ok h s (search_gid s)) (s\<lparr>search_gid := search_gid s\<rparr>)"
        using pos by (simp add: scan_gid.simps [of h s])
      then show ?thesis using err pos
        by (intro exI [of _ "search_gid s"]) (auto simp: word_greater_zero_iff)
    next
      case free
      then have "scan_gid h s = Continue (s\<lparr>search_gid := search_gid s\<rparr>)"
        using pos by (simp add: scan_gid.simps [of h s])
      then show ?thesis using free by (intro exI [of _ "search_gid s"]) auto
    next
      case taken
      have eq: "scan_gid h s = scan_gid h (s\<lparr>search_gid := search_gid s - 1\<rparr>)"
        using pos taken by (simp add: scan_gid.simps [of h s])
      from "1.IH" [OF pos refl _ _ ] taken
      obtain c where c: "c \<le> search_gid s - 1"
        and d: "(c \<noteq> 0 \<and> gid_is_ok h s c < 0 \<and>
                 scan_gid h (s\<lparr>search_gid := search_gid s - 1\<rparr>) =
                   Return (gid_is_ok h s c) (s\<lparr>search_gid := c\<rparr>)) \<or>
                (scan_gid h (s\<lparr>search_gid := search_gid s - 1\<rparr>) =
                   Continue (s\<lparr>search_gid := c\<rparr>) \<and> (c = 0 \<or> 0 < gid_is_ok h s c))"
        by auto
      have "search_gid s - 1 \<le> search_gid s"
        using pos by (simp add: word_pred_le word_greater_zero_iff)
      with c have "c \<le> search_gid s" by simp
      then show ?thesis using d eq by (intro exI [of _ c]) auto
    qed
  qed
qed

lemma cursor_le_scan_uid: "cursor_le (step_state (scan_uid h nm s)) s"
  using scan_uid_result [of s h nm] by (auto simp: cursor_le_def)

lemma cursor_le_scan_gid: "cursor_le (step_state (scan_gid h s)) s"
  using scan_gid_result [of s h] by (auto simp: cursor_le_def)

lemma cursor_le_add_user_search: "cursor_le (step_state (add_user_search h r s)) s"
proof (cases "uid_set (the_item s r)")
  case True
  then show ?thesis by (simp add: add_user_search_def)
next
  case False
  obtain c where c: "c \<le> search_uid s"
    and d: "(c \<noteq> 0 \<and> uid_is_ok h s c (name (the_item s r)) < 0 \<and>
               scan_uid h (name (the_item s r)) s =
                 Return (uid_is_ok h s c (name (the_item s r))) (s\<lparr>search_uid := c\<rparr>)) \<or>
            (scan_uid h (name (the_item s r)) s = Continue (s\<lparr>search_uid := c\<rparr>) \<and>
               (c = 0 \<or> 0 < uid_is_ok h s c (name (the_item s r))))"
    using scan_uid_result [of s h "name (the_item s r)"] by blast
  from d show ?thesis
  proof
    assume "c \<noteq> 0 \<and> uid_is_ok h s c (name (the_item s r)) < 0 \<and>
               scan_uid h (name (the_item s r)) s =
                 Return (uid_is_ok h s c (name (the_item s r))) (s\<lparr>search_uid := c\<rparr>)"
    then have "add_user_search h r s =
        Return (uid_is_ok h s c (name (the_item s r))) (s\<lparr>search_uid := c\<rparr>)"
      using False by (simp add: add_user_search_def and_then_def)
    then show ?thesis using c by (simp add: cursor_le_def)
  next
    assume a: "scan_uid h (name (the_item s r)) s = Continue (s\<lparr>search_uid := c\<rparr>) \<and>
               (c = 0 \<or> 0 < uid_is_ok h s c (name (the_item s r)))"
    show ?thesis
    proof (cases "c = 0")
      case True
      then have "add_user_search h r s = Return (- int E2BIG) (s\<lparr>search_uid := c\<rparr>)"
        using False a by (simp add: add_user_search_def and_then_def)
      then show ?thesis using c by (simp add: cursor_le_def)
    next
      case nz: False
      then have "add_user_search h r s =
          Continue ((set_item r (\<lambda>i. i\<lparr>uid_set := True, uid := c\<rparr>) (s\<lparr>search_uid := c\<rparr>))
                      \<lparr>search_uid := c - 1\<rparr>)"
        using False a by (simp add: add_user_search_def and_then_def)
      moreover have "c - 1 \<le> search_uid s"
        using word_pred_le [OF nz] c by simp
      ultimately show ?thesis by (simp add: cursor_le_def)
    qed
  qed
qed

lemma cursor_le_add_group_search: "cursor_le (step_state (add_group_search h r s)) s"
proof (cases "gid_set (the_item s r)")
  case True
  then show ?thesis by (simp add: add_group_search_def)
next
  case False
  obtain c where c: "c \<le> search_gid s"
    and d: "(c \<noteq> 0 \<and> gid_is_ok h s c < 0 \<and>
               scan_gid h s =
                 Return (gid_is_ok h s c) (s\<lparr>search_gid := c\<rparr>)) \<or>
            (scan_gid h s = Continue (s\<lparr>search_gid := c\<rparr>) \<and>
               (c = 0 \<or> 0 < gid_is_ok h s c))"
    using scan_gid_result [of s h] by blast
  from d show ?thesis
  proof
    assume "c \<noteq> 0 \<and> gid_is_ok h s c < 0 \<and>
               scan_gid h s =
                 Return (gid_is_ok h s c) (s\<lparr>search_gid := c\<rparr>)"
    then have "add_group_search h r s =
        Return (gid_is_ok h s c) (s\<lparr>search_gid := c\<rparr>)"
      using False by (simp add: add_group_search_def and_then_def)
    then show ?thesis using c by (simp add: cursor_le_def)
  next
    assume a: "scan_gid h s = Continue (s\<lparr>search_gid := c\<rparr>) \<and>
               (c = 0 \<or> 0 < gid_is_ok h s c)"
    show ?thesis
    proof (cases "c = 0")
      case True
      then have "add_group_search h r s = Return (- int E2BIG) (s\<lparr>search_gid := c\<rparr>)"
        using False a by (simp add: add_group_search_def and_then_def)
      then show ?thesis using c by (simp add: cursor_le_def)
    next
      case nz: False
      then have "add_group_search h r s =
          Continue ((set_item r (\<lambda>i. i\<lparr>gid_set := True, gid := c\<rparr>) (s\<lparr>search_gid := c\<rparr>))
                      \<lparr>search_gid := c - 1\<rparr>)"
        using False a by (simp add: add_group_search_def and_then_def)
      moreover have "c - 1 \<le> search_gid s"
        using word_pred_le [OF nz] c by simp
      ultimately show ?thesis by (simp add: cursor_le_def)
    qed
  qed
qed

lemma cursor_le_add_user_blocks:
  "cursor_le (step_state (add_user_database r s)) s"
  "cursor_le (step_state (add_user_nss h r s)) s"
  "cursor_le (step_state (add_user_suggested h r s)) s"
  "cursor_le (step_state (add_user_path h r s)) s"
  "cursor_le (step_state (add_user_reuse_gid h r s)) s"
  "cursor_le (step_state (add_user_todo r s)) s"
  by (auto simp: add_user_database_def add_user_nss_def add_user_suggested_def
        add_user_path_def add_user_reuse_gid_def add_user_todo_def Let_def cursor_le_def
        split: lookup.splits option.splits prod.splits)

lemma cursor_le_add_group_blocks:
  "cursor_le (step_state (add_group_database r s)) s"
  "cursor_le (step_state (add_group_nss h r s)) s"
  "cursor_le (step_state (add_group_suggested h r s)) s"
  "cursor_le (step_state (add_group_reuse_uid h r s)) s"
  "cursor_le (step_state (add_group_path h r s)) s"
  "cursor_le (step_state (add_group_todo r s)) s"
  by (auto simp: add_group_database_def add_group_nss_def add_group_suggested_def
        add_group_path_def add_group_reuse_uid_def add_group_todo_def Let_def cursor_le_def
        split: lookup.splits option.splits prod.splits)

lemma cursor_le_add_user: "cursor_le (snd (add_user h r s)) s"
  unfolding add_user_def snd_finish
  by (intro cursor_le_and_then cursor_le_add_user_blocks cursor_le_add_user_search)

lemma cursor_le_add_group: "cursor_le (snd (add_group h r s)) s"
  unfolding add_group_def snd_finish
  by (intro cursor_le_and_then cursor_le_add_group_blocks cursor_le_add_group_search)

lemma cursor_le_process_item: "cursor_le (snd (process_item h r s)) s"
proof (cases "type (the_item s r)")
  case ADD_USER
  show ?thesis
  proof (cases "add_group h r s")
    case (Pair k s1)
    have "cursor_le s1 s"
      using cursor_le_add_group [of h r s] Pair by simp
    moreover have "cursor_le (snd (add_user h r s1)) s1"
      by (rule cursor_le_add_user)
    ultimately show ?thesis
      using ADD_USER Pair by (auto simp: process_item_def intro: cursor_le_trans)
  qed
next
  case ADD_GROUP
  then show ?thesis
    using cursor_le_add_group [of h r s]
    by (auto simp: process_item_def Let_def split: option.splits)
qed

lemma cursor_le_process_items: "cursor_le (process_items h rs s) s"
proof (induction rs arbitrary: s)
  case Nil
  show ?case by simp
next
  case (Cons r rs)
  show ?case
    using Cons.IH [of "snd (process_item h r s)"] cursor_le_process_item [of h r s]
    by (auto intro: cursor_le_trans)
qed

lemma cursor_le_reconcile: "cursor_le (reconcile h s) s"
  unfolding reconcile_def Let_def
  by (blast intro: cursor_le_trans cursor_le_process_items)

lemma add_user_search_accepts:
  assumes i: "item_at s r = Some i" and nset: "\<not> uid_set i"
    and res: "add_user_search h r s = Continue s'"
  shows "search_uid s' < uid (the_item s' r) \<and> uid (the_item s' r) \<le> search_uid s \<and>
         search_uid s' = uid (the_item s' r) - 1 \<and>
         0 < uid_is_ok h s (uid (the_item s' r)) (name i)"
proof -
  have ti: "the_item s r = i" using i by (rule the_item_Some)
  obtain c where c: "c \<le> search_uid s"
    and d: "(c \<noteq> 0 \<and> uid_is_ok h s c (name i) < 0 \<and>
               scan_uid h (name i) s = Return (uid_is_ok h s c (name i)) (s\<lparr>search_uid := c\<rparr>)) \<or>
            (scan_uid h (name i) s = Continue (s\<lparr>search_uid := c\<rparr>) \<and>
               (c = 0 \<or> 0 < uid_is_ok h s c (name i)))"
    using scan_uid_result [of s h "name i"] by blast
  from d show ?thesis
  proof
    assume "c \<noteq> 0 \<and> uid_is_ok h s c (name i) < 0 \<and>
               scan_uid h (name i) s = Return (uid_is_ok h s c (name i)) (s\<lparr>search_uid := c\<rparr>)"
    then have "add_user_search h r s = Return (uid_is_ok h s c (name i)) (s\<lparr>search_uid := c\<rparr>)"
      using nset by (simp add: add_user_search_def and_then_def ti)
    with res show ?thesis by simp
  next
    assume a: "scan_uid h (name i) s = Continue (s\<lparr>search_uid := c\<rparr>) \<and>
               (c = 0 \<or> 0 < uid_is_ok h s c (name i))"
    show ?thesis
    proof (cases "c = 0")
      case True
      then have "add_user_search h r s = Return (- int E2BIG) (s\<lparr>search_uid := c\<rparr>)"
        using nset a by (simp add: add_user_search_def and_then_def ti)
      with res show ?thesis by simp
    next
      case nz: False
      then have "add_user_search h r s =
          Continue ((set_item r (\<lambda>i. i\<lparr>uid_set := True, uid := c\<rparr>) (s\<lparr>search_uid := c\<rparr>))
                      \<lparr>search_uid := c - 1\<rparr>)"
        using nset a by (simp add: add_user_search_def and_then_def ti)
      with res have s': "s' = (set_item r (\<lambda>i. i\<lparr>uid_set := True, uid := c\<rparr>) (s\<lparr>search_uid := c\<rparr>))
                      \<lparr>search_uid := c - 1\<rparr>"
        by simp
      have "item_at (s\<lparr>search_uid := c\<rparr>) r = Some i" using i by simp
      then have "the_item (set_item r (\<lambda>i. i\<lparr>uid_set := True, uid := c\<rparr>) (s\<lparr>search_uid := c\<rparr>)) r =
                 i\<lparr>uid_set := True, uid := c\<rparr>"
        by (rule the_item_set_item_same)
      then have u: "uid (the_item s' r) = c"
        by (simp add: s' the_item_def)
      have "search_uid s' = c - 1" by (simp add: s')
      then show ?thesis
        using u c a nz word_pred_less [OF nz] by simp
    qed
  qed
qed

lemma add_group_search_accepts:
  assumes i: "item_at s r = Some i" and nset: "\<not> gid_set i"
    and res: "add_group_search h r s = Continue s'"
  shows "search_gid s' < gid (the_item s' r) \<and> gid (the_item s' r) \<le> search_gid s \<and>
         search_gid s' = gid (the_item s' r) - 1 \<and>
         0 < gid_is_ok h s (gid (the_item s' r))"
proof -
  have ti: "the_item s r = i" using i by (rule the_item_Some)
  obtain c where c: "c \<le> search_gid s"
    and d: "(c \<noteq> 0 \<and> gid_is_ok h s c < 0 \<and>
               scan_gid h s = Return (gid_is_ok h s c) (s\<lparr>search_gid := c\<rparr>)) \<or>
            (scan_gid h s = Continue (s\<lparr>search_gid := c\<rparr>) \<and>
               (c = 0 \<or> 0 < gid_is_ok h s c))"
    using scan_gid_result [of s h] by blast
  from d show ?thesis
  proof
    assume "c \<noteq> 0 \<and> gid_is_ok h s c < 0 \<and>
               scan_gid h s = Return (gid_is_ok h s c) (s\<lparr>search_gid := c\<rparr>)"
    then have "add_group_search h r s = Return (gid_is_ok h s c) (s\<lparr>search_gid := c\<rparr>)"
      using nset by (simp add: add_group_search_def and_then_def ti)
    with res show ?thesis by simp
  next
    assume a: "scan_gid h s = Continue (s\<lparr>search_gid := c\<rparr>) \<and>
               (c = 0 \<or> 0 < gid_is_ok h s c)"
    show ?thesis
    proof (cases "c = 0")
      case True
      then have "add_group_search h r s = Return (- int E2BIG) (s\<lparr>search_gid := c\<rparr>)"
        using nset a by (simp add: add_group_search_def and_then_def ti)
      with res show ?thesis by simp
    next
      case nz: False
      then have "add_group_search h r s =
          Continue ((set_item r (\<lambda>i. i\<lparr>gid_set := True, gid := c\<rparr>) (s\<lparr>search_gid := c\<rparr>))
                      \<lparr>search_gid := c - 1\<rparr>)"
        using nset a by (simp add: add_group_search_def and_then_def ti)
      with res have s': "s' = (set_item r (\<lambda>i. i\<lparr>gid_set := True, gid := c\<rparr>) (s\<lparr>search_gid := c\<rparr>))
                      \<lparr>search_gid := c - 1\<rparr>"
        by simp
      have "item_at (s\<lparr>search_gid := c\<rparr>) r = Some i" using i by simp
      then have "the_item (set_item r (\<lambda>i. i\<lparr>gid_set := True, gid := c\<rparr>) (s\<lparr>search_gid := c\<rparr>)) r =
                 i\<lparr>gid_set := True, gid := c\<rparr>"
        by (rule the_item_set_item_same)
      then have u: "gid (the_item s' r) = c"
        by (simp add: s' the_item_def)
      have "search_gid s' = c - 1" by (simp add: s')
      then show ?thesis
        using u c a nz word_pred_less [OF nz] by simp
    qed
  qed
qed

lemma cursors_load_users:
  "search_uid (step_state (load_users ents s)) = search_uid s \<and>
   search_gid (step_state (load_users ents s)) = search_gid s"
proof (induction ents arbitrary: s)
  case Nil
  show ?case by simp
next
  case (Cons pw rest)
  show ?case
    by (simp add: Cons.IH split: prod.splits)
qed

lemma cursor_le_load_users: "cursor_le (step_state (load_users ents s)) s"
  by (simp add: cursor_le_def cursors_load_users)

lemma cursors_load_groups:
  "search_uid (step_state (load_groups ents s)) = search_uid s \<and>
   search_gid (step_state (load_groups ents s)) = search_gid s"
proof (induction ents arbitrary: s)
  case Nil
  show ?case by simp
next
  case (Cons gr rest)
  show ?case
    by (simp add: Cons.IH split: prod.splits)
qed

lemma cursor_le_load_groups: "cursor_le (step_state (load_groups ents s)) s"
  by (simp add: cursor_le_def cursors_load_groups)

lemma cursor_le_load_user_database: "cursor_le (snd (load_user_database h fs s)) s"
proof (cases "fopen_read h Load_fopen_passwd (etc_passwd fs)")
  case (Inl e)
  then show ?thesis by (simp add: load_user_database_def)
next
  case (Inr ents)
  then show ?thesis
    by (simp add: load_user_database_def cursor_le_and_then cursor_le_load_users)
qed

lemma cursor_le_load_group_database: "cursor_le (snd (load_group_database h fs s)) s"
proof (cases "fopen_read h Load_fopen_group (etc_group fs)")
  case (Inl e)
  then show ?thesis by (simp add: load_group_database_def)
next
  case (Inr ents)
  then show ?thesis
    by (simp add: load_group_database_def cursor_le_and_then cursor_le_load_groups)
qed

lemma cursor_le_main_locked: "cursor_le (snd (snd (main_locked h r0 fs s))) s"
proof -
  obtain r1 s1 where l1: "load_user_database h fs s = (r1, s1)" by force
  obtain r2 s2 where l2: "load_group_database h fs s1 = (r2, s2)" by force
  have a: "cursor_le s1 s"
    using cursor_le_load_user_database [of h fs s] l1 by simp
  have b: "cursor_le s2 s1"
    using cursor_le_load_group_database [of h fs s1] l2 by simp
  have c: "cursor_le (reconcile h s2) s2"
    by (rule cursor_le_reconcile)
  have d: "cursor_le s2 s" using b a by (rule cursor_le_trans)
  have e: "cursor_le (reconcile h s2) s" using c d by (rule cursor_le_trans)
  show ?thesis
    using a d e by (simp add: main_locked_def l1 l2 Let_def split: prod.splits)
qed

text \<open>
  C8. Neither allocator cursor ever increases: not over a whole run of main from the lock
  on, and not over a single \<open>process_item\<close>. When the search of \<open>add_user\<close> (or of
  \<open>add_group\<close>) accepts a value, the cursor it leaves is strictly below the value chosen,
  which itself was at most the cursor before; later searches start at the cursor, so the
  value is not tried again.
\<close>

theorem cursors_never_increase:
  "search_uid (snd (snd (main_locked h r0 fs s))) \<le> search_uid s \<and>
   search_gid (snd (snd (main_locked h r0 fs s))) \<le> search_gid s \<and>
   search_uid (snd (process_item h r s)) \<le> search_uid s \<and>
   search_gid (snd (process_item h r s)) \<le> search_gid s \<and>
   (item_at s r = Some i \<and> \<not> uid_set i \<and> add_user_search h r s = Continue s' \<longrightarrow>
      search_uid s' < uid (the_item s' r) \<and> uid (the_item s' r) \<le> search_uid s) \<and>
   (item_at s r = Some i \<and> \<not> gid_set i \<and> add_group_search h r s = Continue s' \<longrightarrow>
      search_gid s' < gid (the_item s' r) \<and> gid (the_item s' r) \<le> search_gid s)"
proof -
  have u: "search_uid s' < uid (the_item s' r) \<and> uid (the_item s' r) \<le> search_uid s"
    if "item_at s r = Some i" and "\<not> uid_set i" and "add_user_search h r s = Continue s'"
    using add_user_search_accepts [OF that] by blast
  have g: "search_gid s' < gid (the_item s' r) \<and> gid (the_item s' r) \<le> search_gid s"
    if "item_at s r = Some i" and "\<not> gid_set i" and "add_group_search h r s = Continue s'"
    using add_group_search_accepts [OF that] by blast
  show ?thesis
    using cursor_le_main_locked [of h r0 fs s] cursor_le_process_item [of h r s] u g
    by (simp add: cursor_le_def)
qed

theorem cursors_never_increase_witness:
  "add_user_search quiet_host (ADD_USER, ''foo'') foo_session =
     Continue (foo_session\<lparr>users := [(''foo'', foo_item\<lparr>uid_set := True, uid := 999\<rparr>)],
                           search_uid := 998\<rparr>) \<and>
   add_group_search quiet_host (ADD_USER, ''foo'') foo_session =
     Continue (foo_session\<lparr>users := [(''foo'', foo_item\<lparr>gid_set := True, gid := 999\<rparr>)],
                           search_gid := 998\<rparr>) \<and>
   search_uid (snd (process_item quiet_host (ADD_USER, ''foo'') foo_session)) \<le> 999"
  using cursors_never_increase [of quiet_host 0 no_files foo_session "(ADD_USER, ''foo'')" foo_item
      "foo_session\<lparr>users := [(''foo'', foo_item\<lparr>uid_set := True, uid := 999\<rparr>)],
                           search_uid := 998\<rparr>"]
    cursors_never_increase [of quiet_host 0 no_files foo_session "(ADD_USER, ''foo'')" foo_item
      "foo_session\<lparr>users := [(''foo'', foo_item\<lparr>gid_set := True, gid := 999\<rparr>)],
                           search_gid := 998\<rparr>"]
  by (simp add: add_user_search_def add_group_search_def scan_uid.simps scan_gid.simps
        uid_is_ok_def gid_is_ok_def and_then_def foo_session_def foo_item_def
        fresh_session_def quiet_host_def the_item_def item_at_def set_item_def
        hashmap_modify_def hashmap_get_def hashmap_contains_def)

subsection \<open>The commit\<close>

lemma copy_groups_negative: "copy_groups h s ents out = Return k out' \<Longrightarrow> k < 0"
  by (induction ents arbitrary: out) (auto simp: EEXIST_def split: if_splits)

lemma copy_users_negative: "copy_users h s ents out = Return k out' \<Longrightarrow> k < 0"
  by (induction ents arbitrary: out) (auto simp: EEXIST_def split: if_splits)

lemma put_groups_negative: "put_groups h is out = Return k out' \<Longrightarrow> k < 0"
  by (induction "is" arbitrary: out) (auto split: if_splits)

lemma put_users_not_positive: "put_users h is out = Return k out' \<Longrightarrow> k = 0"
  by (induction "is" arbitrary: out) (auto split: if_splits)

lemma copy_groups_collision:
  "gr \<in> set ents \<Longrightarrow> copy_groups_test s gr \<Longrightarrow> \<exists>k out'. copy_groups h s ents out = Return k out'"
  by (induction ents arbitrary: out) (auto simp: copy_groups_test_def)

lemma copy_users_collision:
  "pw \<in> set ents \<Longrightarrow> copy_users_test s pw \<Longrightarrow> \<exists>k out'. copy_users h s ents out = Return k out'"
  by (induction ents arbitrary: out) (auto simp: copy_users_test_def)

lemma returns_negative_simps [simp]:
  "returns_negative (Return k a) = (k < 0)" "returns_negative (Continue a)"
  by (simp_all add: returns_negative_def)

lemma returns_negative_and_then:
  "returns_negative x \<Longrightarrow> (\<And>b. returns_negative (g b)) \<Longrightarrow> returns_negative (and_then x g)"
  by (cases x) (simp_all add: and_then_def)

lemma step_state_and_then_pred:
  "P (step_state x) \<Longrightarrow> (\<And>b. P b \<Longrightarrow> P (step_state (g b))) \<Longrightarrow> P (step_state (and_then x g))"
  by (cases x) (simp_all add: and_then_def)

lemma returns_negative_with_group_tmp:
  "returns_negative (with_group_tmp fs x) = returns_negative x"
  by (cases x) (simp_all add: with_group_tmp_def)

lemma returns_negative_with_passwd_tmp:
  "returns_negative (with_passwd_tmp fs x) = returns_negative x"
  by (cases x) (simp_all add: with_passwd_tmp_def)

lemma step_state_with_group_tmp:
  "step_state (with_group_tmp fs x) = fs\<lparr>group_tmp := Some (step_state x)\<rparr>"
  by (cases x) (simp_all add: with_group_tmp_def)

lemma step_state_with_passwd_tmp:
  "step_state (with_passwd_tmp fs x) = fs\<lparr>passwd_tmp := Some (step_state x)\<rparr>"
  by (cases x) (simp_all add: with_passwd_tmp_def)

lemma same_files_simps [simp]:
  "same_files fs fs"
  "same_files (fs'\<lparr>group_tmp := x\<rparr>) fs = same_files fs' fs"
  "same_files (fs'\<lparr>passwd_tmp := y\<rparr>) fs = same_files fs' fs"
  by (simp_all add: same_files_def)

lemma returns_negative_copy_groups: "returns_negative (copy_groups h s ents out)"
  by (cases "copy_groups h s ents out") (auto dest: copy_groups_negative)

lemma returns_negative_put_groups: "returns_negative (put_groups h is out)"
  by (cases "put_groups h is out") (auto dest: put_groups_negative)

lemma returns_negative_copy_users: "returns_negative (copy_users h s ents out)"
  by (cases "copy_users h s ents out") (auto dest: copy_users_negative)

lemma fopen_read_errno: "fopen_read h c f = Inl e \<Longrightarrow> 0 < e"
  by (auto simp: fopen_read_def ENOENT_def split: if_splits option.splits)

lemma same_files_write_group_tmp: "same_files (step_state (write_group_tmp h s fs)) fs"
  unfolding write_group_tmp_def
  by (auto intro!: step_state_and_then_pred [where P = "\<lambda>x. same_files x fs"]
           simp: step_state_with_group_tmp split: sum.splits)

lemma same_files_write_passwd_tmp: "same_files (step_state (write_passwd_tmp h s fs)) fs"
  unfolding write_passwd_tmp_def
  by (auto intro!: step_state_and_then_pred [where P = "\<lambda>x. same_files x fs"]
           simp: step_state_with_passwd_tmp split: sum.splits)

lemma returns_negative_write_group_tmp: "returns_negative (write_group_tmp h s fs)"
  unfolding write_group_tmp_def
  by (auto intro!: returns_negative_and_then
           simp: returns_negative_with_group_tmp returns_negative_copy_groups
             returns_negative_put_groups
           dest: fopen_read_errno split: sum.splits)

lemma write_group_tmp_collision:
  assumes "hashmap_size (todo_gids s) > 0"
    and "fopen_read h Fopen_group (etc_group fs) = Inr ents"
    and "gr \<in> set ents" and "copy_groups_test s gr"
  shows "\<exists>k fs'. write_group_tmp h s fs = Return k fs'"
proof -
  obtain k out' where "copy_groups h s ents [] = Return k out'"
    using copy_groups_collision [OF assms(3,4)] by blast
  then show ?thesis
    using assms(1,2) by (simp add: write_group_tmp_def with_group_tmp_def and_then_def)
qed

lemma write_passwd_tmp_collision:
  assumes "hashmap_size (todo_uids s) > 0"
    and "fopen_read h Fopen_passwd (etc_passwd fs) = Inr ents"
    and "pw \<in> set ents" and "copy_users_test s pw"
  shows "\<exists>k fs'. k < 0 \<and> write_passwd_tmp h s fs = Return k fs'"
proof -
  obtain k out' where c: "copy_users h s ents [] = Return k out'"
    using copy_users_collision [OF assms(3,4)] by blast
  then have "k < 0" by (rule copy_users_negative)
  then show ?thesis
    using assms(1,2) c by (simp add: write_passwd_tmp_def with_passwd_tmp_def and_then_def)
qed

lemma fopen_read_cong: "f' = f \<Longrightarrow> fopen_read h c f' = fopen_read h c f"
  by simp

subsection \<open>write_files\<close>

text \<open>
  What the tests of the copy loops catch: when a table is rewritten and an entry read
  from its existing file passes \<open>copy_groups_test\<close> (\<open>copy_users_test\<close>), \<open>write_files\<close>
  returns a negative value, both temporary files are gone, and \<open>/etc/passwd\<close>,
  \<open>/etc/group\<close> and their backups have the content they had before.
\<close>

lemma write_files_test_aborts:
  assumes "(hashmap_size (todo_gids s) > 0 \<and>
            fopen_read h Fopen_group (etc_group fs) = Inr gents \<and>
            gr \<in> set gents \<and> copy_groups_test s gr) \<or>
           (hashmap_size (todo_uids s) > 0 \<and>
            fopen_read h Fopen_passwd (etc_passwd fs) = Inr pents \<and>
            pw \<in> set pents \<and> copy_users_test s pw)"
  shows "fst (write_files h s fs) < 0 \<and>
         same_files (snd (write_files h s fs)) fs \<and>
         passwd_tmp (snd (write_files h s fs)) = None \<and>
         group_tmp (snd (write_files h s fs)) = None"
proof -
  have neg: "returns_negative (write_group_tmp h s fs)"
    by (rule returns_negative_write_group_tmp)
  have same: "same_files (step_state (write_group_tmp h s fs)) fs"
    by (rule same_files_write_group_tmp)
  show ?thesis
  proof (cases "write_group_tmp h s fs")
    case (Return k fs1)
    then show ?thesis
      using neg same by (simp add: write_files_def and_then_def finish_def)
  next
    case (Continue fs1)
    have s1: "same_files fs1 fs" using same Continue by simp
    from assms Continue obtain
      a: "hashmap_size (todo_uids s) > 0"
        "fopen_read h Fopen_passwd (etc_passwd fs) = Inr pents"
        "pw \<in> set pents" "copy_users_test s pw"
      using write_group_tmp_collision [of s h fs gents gr] by auto
    have "etc_passwd fs1 = etc_passwd fs" using s1 by (simp add: same_files_def)
    then have b: "fopen_read h Fopen_passwd (etc_passwd fs1) = Inr pents"
      using a(2) by simp
    obtain k fs2 where k: "k < 0" and w: "write_passwd_tmp h s fs1 = Return k fs2"
      using write_passwd_tmp_collision [OF a(1) b a(3,4)] by blast
    have "same_files (step_state (write_passwd_tmp h s fs1)) fs1"
      by (rule same_files_write_passwd_tmp)
    then have "same_files fs2 fs"
      using w s1 by (simp add: same_files_def)
    then show ?thesis
      using Continue w k by (simp add: write_files_def and_then_def finish_def)
  qed
qed




lemmas model_defs =
  UID_TO_PTR_def PTR_TO_UID_def GID_TO_PTR_def PTR_TO_GID_def
  ENOENT_def EIO_def E2BIG_def ENOMEM_def EEXIST_def EINVAL_def EBADMSG_def
  EXIT_SUCCESS_def EXIT_FAILURE_def
  hashmap_get_def hashmap_contains_def hashmap_size_def hashmap_put_def hashmap_modify_def
  item_at_def the_item_def set_item_def fix_root_def uid_is_ok_def gid_is_ok_def
  root_stat_def read_id_from_file_def and_then_def finish_def ptr_value_def
  add_user_database_def add_user_nss_def add_user_suggested_def add_user_path_def
  add_user_reuse_gid_def add_user_search_def add_user_todo_def add_user_def
  add_group_database_def add_group_nss_def add_group_suggested_def add_group_reuse_uid_def
  add_group_path_def add_group_search_def add_group_todo_def add_group_def
  process_item_def fopen_read_def load_user_database_def load_group_database_def
  make_backup_def new_group_def new_passwd_def with_group_tmp_def with_passwd_tmp_def
  write_group_tmp_def write_passwd_tmp_def backup_files_def rename_files_def write_files_def
  reconcile_def main_locked_def scan_uid.simps scan_gid.simps

lemmas fixture_defs = quiet_host_def fresh_session_def no_files_def


















lemmas clash_defs = adm_item_def adm_group_def clash_session_def clash_files_def
  bin_passwd_def

lemma write_files_test_aborts_example:
  "copy_groups_test clash_session adm_group \<and>
   write_files quiet_host clash_session clash_files = (- int EEXIST, clash_files)"
  using write_files_test_aborts [of clash_session quiet_host clash_files "[adm_group]"
      adm_group "[]" bin_passwd]
  by (simp add: copy_groups_test_def model_defs fixture_defs clash_defs)

subsection \<open>parse_line\<close>

lemma scan_ms_token:
  assumes "\<forall>c \<in> set w. isspace c" and "token t"
    and "rest = [] \<or> isspace (hd rest)"
  shows "scan_ms (w @ t @ rest) = Some (t, rest)"
proof -
  have d: "dropWhile isspace (w @ t @ rest) = t @ rest"
    using assms(1,2) by (cases t) (auto simp: token_def)
  have tk: "takeWhile (\<lambda>c. \<not> isspace c) (t @ rest) = t"
    using assms(2,3) by (cases rest) (auto simp: token_def)
  have dr: "dropWhile (\<lambda>c. \<not> isspace c) (t @ rest) = rest"
    using assms(2,3) by (cases rest) (auto simp: token_def)
  have ne: "t @ rest \<noteq> []" using assms(2) by (simp add: token_def)
  show ?thesis
    unfolding scan_ms_def d Let_def using ne tk dr by simp
qed

lemma scan_ms_blank: "\<forall>c \<in> set w. isspace c \<Longrightarrow> scan_ms w = None"
  by (simp add: scan_ms_def)

lemma sscanf_two_fields:
  assumes "token a" and "blank w" and "token nm"
  shows "sscanf_line (a @ w @ nm) = (2, Some a, Some nm, None, - 1)"
proof -
  have w: "\<forall>c \<in> set w. isspace c" "isspace (hd w)"
    using assms(2) by (cases w; simp add: blank_def)+
  have 1: "scan_ms (a @ w @ nm) = Some (a, w @ nm)"
    using scan_ms_token [of "[]" a "w @ nm"] assms(1,2) w by (simp add: blank_def)
  have 2: "scan_ms (w @ nm) = Some (nm, [])"
    using scan_ms_token [of w nm "[]"] assms(3) w by simp
  have 3: "scan_ms [] = None" by (simp add: scan_ms_def)
  show ?thesis by (simp add: sscanf_line_def 1 2 3)
qed

lemma sscanf_three_fields:
  assumes "token a" and "blank w" and "token nm" and "blank w'" and "token idt"
  shows "sscanf_line (a @ w @ nm @ w' @ idt) =
           (3, Some a, Some nm, Some idt, int (length (a @ w @ nm @ w' @ idt)))"
proof -
  have w: "\<forall>c \<in> set w. isspace c" "isspace (hd w)"
    using assms(2) by (cases w; simp add: blank_def)+
  have w': "\<forall>c \<in> set w'. isspace c" "isspace (hd w')"
    using assms(4) by (cases w'; simp add: blank_def)+
  have 1: "scan_ms (a @ w @ nm @ w' @ idt) = Some (a, w @ nm @ w' @ idt)"
    using scan_ms_token [of "[]" a "w @ nm @ w' @ idt"] assms(1,2) w by (simp add: blank_def)
  have 2: "scan_ms (w @ nm @ w' @ idt) = Some (nm, w' @ idt)"
    using scan_ms_token [of w nm "w' @ idt"] assms(3,4) w w' by (simp add: blank_def)
  have 3: "scan_ms (w' @ idt) = Some (idt, [])"
    using scan_ms_token [of w' idt "[]"] assms(5) w' by simp
  show ?thesis by (simp add: sscanf_line_def 1 2 3)
qed

text \<open>
  C9. A line that holds only a type and a name is not a syntax error: \<open>sscanf\<close> converts
  two fields, \<open>id\<close> stays NULL and \<open>n\<close> stays -1, and \<open>parse_line\<close> gives the result and
  the session it gives for the same line with the ID \<open>-\<close> appended.
\<close>

theorem parse_line_without_id:
  assumes "token a" and "blank w" and "token nm" and "blank w'"
  shows "sscanf_line (a @ w @ nm) = (2, Some a, Some nm, None, - 1) \<and>
         parse_line lib (a @ w @ nm) s = parse_line lib (a @ w @ nm @ w' @ ''-'') s"
proof -
  have dash: "token ''-''" by (simp add: token_def isspace_def)
  have two: "sscanf_line (a @ w @ nm) = (2, Some a, Some nm, None, - 1)"
    using assms(1-3) by (rule sscanf_two_fields)
  define b3 where "b3 = a @ w @ nm @ w' @ ''-''"
  have three: "sscanf_line b3 = (3, Some a, Some nm, Some ''-'', int (length b3))"
    unfolding b3_def using assms dash by (rule sscanf_three_fields)
  have d2: "parse_description lib (a @ w @ nm) (- 1) i = Inr i" for i
    by (simp add: parse_description_def)
  have d3: "parse_description lib b3 (int (length b3)) i = Inr i" for i
    by (simp add: parse_description_def)
  have i2: "parse_id lib None i = Inr i" "parse_id lib (Some ''-'') i = Inr i" for i
    by (simp_all add: parse_id_def)
  have "parse_line lib (a @ w @ nm) s = parse_line lib b3 s"
    unfolding parse_line_def two three
    by (simp add: d2 d3 i2 split: sum.splits)
  then show ?thesis
    using two by (simp add: b3_def)
qed

theorem parse_line_without_id_witness:
  "parse_line plain_helpers ''u foo'' fresh_session =
     (0, fresh_session\<lparr>users := [(''foo'', new_item ADD_USER ''foo'')]\<rparr>) \<and>
   parse_line plain_helpers ''u foo -'' fresh_session =
     parse_line plain_helpers ''u foo'' fresh_session"
proof -
  have r: "parse_line plain_helpers ''u foo'' fresh_session =
     (0, fresh_session\<lparr>users := [(''foo'', new_item ADD_USER ''foo'')]\<rparr>)"
    by (simp add: parse_line_def sscanf_line_def scan_ms_def isspace_def
          valid_user_group_name_def parse_description_def parse_id_def declare_item_def
          new_item_def plain_helpers_def fresh_session_def hashmap_get_def hashmap_put_def)
  show ?thesis
    using parse_line_without_id [of "''u''" "'' ''" "''foo''" "'' ''" plain_helpers fresh_session] r
    by (simp add: token_def blank_def isspace_def)
qed

subsection \<open>The pending sets\<close>

lemma grp_eff_refl: "item_at s r = Some i \<Longrightarrow> grp_eff r s s"
  by (simp add: grp_eff_def)

lemma grp_eff_trans: "grp_eff r s s1 \<Longrightarrow> grp_eff r s1 s2 \<Longrightarrow> grp_eff r s s2"
  by (auto simp: grp_eff_def)

lemma grp_eff_item: "grp_eff r s s' \<Longrightarrow> \<exists>i'. item_at s' r = Some i'"
  by (auto simp: grp_eff_def)

lemma grp_eff_set_item:
  assumes "item_at s r = Some i"
    and "uid (f i) = uid i" "uid_set (f i) = uid_set i" "todo (f i) = todo i"
      "type (f i) = type i" "name (f i) = name i"
  shows "grp_eff r s (set_item r f s)"
  using assms by (simp add: grp_eff_def item_at_set_item)

lemma grp_eff_search_gid: "item_at s r = Some i \<Longrightarrow> grp_eff r s (s\<lparr>search_gid := c\<rparr>)"
  by (simp add: grp_eff_def)

lemma grp_eff_blocks:
  assumes "item_at s r = Some i"
  shows "grp_eff r s (step_state (add_group_database r s))"
    and "grp_eff r s (step_state (add_group_nss h r s))"
    and "grp_eff r s (step_state (add_group_suggested h r s))"
    and "grp_eff r s (step_state (add_group_reuse_uid h r s))"
    and "grp_eff r s (step_state (add_group_path h r s))"
  using assms
  by (auto simp: add_group_database_def add_group_nss_def add_group_suggested_def
        add_group_reuse_uid_def add_group_path_def Let_def the_item_Some
        intro!: grp_eff_set_item grp_eff_refl split: lookup.splits option.splits prod.splits)

lemma grp_eff_search:
  assumes i: "item_at s r = Some i"
  shows "grp_eff r s (step_state (add_group_search h r s)) \<and>
         (\<forall>s'. add_group_search h r s = Continue s' \<longrightarrow> gid_set (the_item s' r))"
proof (cases "gid_set i")
  case True
  then show ?thesis
    using i by (simp add: add_group_search_def the_item_Some grp_eff_refl)
next
  case False
  have ti: "the_item s r = i" using i by (rule the_item_Some)
  obtain c where
    d: "(c \<noteq> 0 \<and> gid_is_ok h s c < 0 \<and>
           scan_gid h s = Return (gid_is_ok h s c) (s\<lparr>search_gid := c\<rparr>)) \<or>
        (scan_gid h s = Continue (s\<lparr>search_gid := c\<rparr>) \<and> (c = 0 \<or> 0 < gid_is_ok h s c))"
    using scan_gid_result [of s h] by blast
  from d show ?thesis
  proof
    assume "c \<noteq> 0 \<and> gid_is_ok h s c < 0 \<and>
           scan_gid h s = Return (gid_is_ok h s c) (s\<lparr>search_gid := c\<rparr>)"
    then have "add_group_search h r s = Return (gid_is_ok h s c) (s\<lparr>search_gid := c\<rparr>)"
      using False by (simp add: add_group_search_def and_then_def ti)
    then show ?thesis using i by (simp add: grp_eff_search_gid)
  next
    assume a: "scan_gid h s = Continue (s\<lparr>search_gid := c\<rparr>) \<and> (c = 0 \<or> 0 < gid_is_ok h s c)"
    show ?thesis
    proof (cases "c = 0")
      case True
      then have "add_group_search h r s = Return (- int E2BIG) (s\<lparr>search_gid := c\<rparr>)"
        using False a by (simp add: add_group_search_def and_then_def ti)
      then show ?thesis using i by (simp add: grp_eff_search_gid)
    next
      case nz: False
      then have eq: "add_group_search h r s =
          Continue ((set_item r (\<lambda>i. i\<lparr>gid_set := True, gid := c\<rparr>) (s\<lparr>search_gid := c\<rparr>))
                      \<lparr>search_gid := c - 1\<rparr>)"
        using False a by (simp add: add_group_search_def and_then_def ti)
      have e: "grp_eff r s ((set_item r (\<lambda>i. i\<lparr>gid_set := True, gid := c\<rparr>) (s\<lparr>search_gid := c\<rparr>))
                      \<lparr>search_gid := c - 1\<rparr>)"
        using i by (simp add: grp_eff_def item_at_set_item)
      have g: "gid_set (the_item ((set_item r (\<lambda>i. i\<lparr>gid_set := True, gid := c\<rparr>)
                  (s\<lparr>search_gid := c\<rparr>))\<lparr>search_gid := c - 1\<rparr>) r)"
        using i by (simp add: the_item_def item_at_set_item)
      show ?thesis using e g by (simp add: eq)
    qed
  qed
qed

lemma grp_outcome_and_then:
  assumes "grp_eff r s (step_state x)" and "grp_eff r s0 s"
    and "\<And>s1. grp_eff r s0 s1 \<Longrightarrow> grp_outcome r s0 (step_state (g s1))"
  shows "grp_outcome r s0 (step_state (and_then x g))"
proof (cases x)
  case (Return k a)
  then have "grp_eff r s0 a" using assms(1,2) by (auto intro: grp_eff_trans)
  then show ?thesis using Return by (simp add: and_then_def grp_outcome_def)
next
  case (Continue a)
  then have "grp_eff r s0 a" using assms(1,2) by (auto intro: grp_eff_trans)
  then show ?thesis using Continue assms(3) by (simp add: and_then_def)
qed

lemma grp_outcome_todo:
  assumes e: "grp_eff r s0 s6" and g: "gid_set (the_item s6 r)"
    and fresh: "r \<notin> snd ` set (todo_gids s0)"
  shows "grp_outcome r s0 (step_state (add_group_todo r s6))"
proof -
  obtain i6 where i6: "item_at s6 r = Some i6" using grp_eff_item [OF e] by blast
  have ti: "the_item s6 r = i6" using i6 by (rule the_item_Some)
  have same: "todo_gids s6 = todo_gids s0" using e by (simp add: grp_eff_def)
  show ?thesis
  proof (cases "map_of (todo_gids s6) (GID_TO_PTR (gid i6))")
    case None
    then have "add_group_todo r s6 =
        Return 0 (set_item r (\<lambda>i. i\<lparr>todo := True\<rparr>)
                    (s6\<lparr>todo_gids := todo_gids s6 @ [(GID_TO_PTR (gid i6), r)]\<rparr>))"
      by (simp add: add_group_todo_def hashmap_put_def ti)
    then show ?thesis
      using e i6 g ti by (auto simp: grp_outcome_def)
  next
    case (Some v)
    then have "(GID_TO_PTR (gid i6), v) \<in> set (todo_gids s6)" by (rule map_of_SomeD)
    then have "v \<noteq> r" using fresh same by force
    then have "add_group_todo r s6 = Return (- int ENOMEM) s6"
      using Some by (simp add: add_group_todo_def hashmap_put_def ti EEXIST_def)
    then show ?thesis using e by (simp add: grp_outcome_def)
  qed
qed

lemma add_group_outcome:
  assumes i: "item_at s r = Some i" and fresh: "r \<notin> snd ` set (todo_gids s)"
  shows "grp_outcome r s (snd (add_group h r s))"
proof -
  have b: "grp_eff r s1 (step_state (add_group_database r s1))"
      "grp_eff r s1 (step_state (add_group_nss h r s1))"
      "grp_eff r s1 (step_state (add_group_suggested h r s1))"
      "grp_eff r s1 (step_state (add_group_reuse_uid h r s1))"
      "grp_eff r s1 (step_state (add_group_path h r s1))"
      "grp_eff r s1 (step_state (add_group_search h r s1))"
    if e1: "grp_eff r s s1" for s1
  proof -
    obtain i1 where i1: "item_at s1 r = Some i1" using grp_eff_item [OF e1] by blast
    show "grp_eff r s1 (step_state (add_group_database r s1))"
      "grp_eff r s1 (step_state (add_group_nss h r s1))"
      "grp_eff r s1 (step_state (add_group_suggested h r s1))"
      "grp_eff r s1 (step_state (add_group_reuse_uid h r s1))"
      "grp_eff r s1 (step_state (add_group_path h r s1))"
      "grp_eff r s1 (step_state (add_group_search h r s1))"
      using grp_eff_blocks [OF i1] grp_eff_search [OF i1] by simp_all
  qed
  have t6: "grp_outcome r s (step_state (and_then (add_group_search h r s5) (add_group_todo r)))"
    if e: "grp_eff r s s5" for s5
  proof (cases "add_group_search h r s5")
    case (Return k a)
    then have "grp_eff r s a" using b(6) [OF e] e by (auto intro: grp_eff_trans)
    then show ?thesis using Return by (simp add: and_then_def grp_outcome_def)
  next
    case (Continue a)
    obtain i5 where i5: "item_at s5 r = Some i5" using grp_eff_item [OF e] by blast
    have "grp_eff r s a" using b(6) [OF e] e Continue by (auto intro: grp_eff_trans)
    moreover have "gid_set (the_item a r)"
      using grp_eff_search [OF i5, of h] Continue by simp
    ultimately show ?thesis
      using Continue fresh by (simp add: and_then_def grp_outcome_todo)
  qed
  have t5: "grp_outcome r s (step_state (and_then (add_group_path h r s4) (\<lambda>s.
              and_then (add_group_search h r s) (add_group_todo r))))"
    if e: "grp_eff r s s4" for s4
    by (rule grp_outcome_and_then [OF b(5) [OF e] e t6])
  have t4: "grp_outcome r s (step_state (and_then (add_group_reuse_uid h r s3) (\<lambda>s.
              and_then (add_group_path h r s) (\<lambda>s.
              and_then (add_group_search h r s) (add_group_todo r)))))"
    if e: "grp_eff r s s3" for s3
    by (rule grp_outcome_and_then [OF b(4) [OF e] e t5])
  have t3: "grp_outcome r s (step_state (and_then (add_group_suggested h r s2) (\<lambda>s.
              and_then (add_group_reuse_uid h r s) (\<lambda>s.
              and_then (add_group_path h r s) (\<lambda>s.
              and_then (add_group_search h r s) (add_group_todo r))))))"
    if e: "grp_eff r s s2" for s2
    by (rule grp_outcome_and_then [OF b(3) [OF e] e t4])
  have t2: "grp_outcome r s (step_state (and_then (add_group_nss h r s1) (\<lambda>s.
              and_then (add_group_suggested h r s) (\<lambda>s.
              and_then (add_group_reuse_uid h r s) (\<lambda>s.
              and_then (add_group_path h r s) (\<lambda>s.
              and_then (add_group_search h r s) (add_group_todo r)))))))"
    if e: "grp_eff r s s1" for s1
    by (rule grp_outcome_and_then [OF b(2) [OF e] e t3])
  have e0: "grp_eff r s s" using i by (rule grp_eff_refl)
  show ?thesis
    unfolding add_group_def snd_finish
    by (rule grp_outcome_and_then [OF b(1) [OF e0] e0 t2])
qed

lemma usr_eff_refl: "item_at s r = Some i \<Longrightarrow> usr_eff r s s"
  by (simp add: usr_eff_def)

lemma usr_eff_trans: "usr_eff r s s1 \<Longrightarrow> usr_eff r s1 s2 \<Longrightarrow> usr_eff r s s2"
  by (auto simp: usr_eff_def)

lemma usr_eff_item: "usr_eff r s s' \<Longrightarrow> \<exists>i'. item_at s' r = Some i'"
  by (auto simp: usr_eff_def)

lemma usr_eff_set_item:
  assumes "item_at s r = Some i"
    and "gid (f i) = gid i" "gid_set (f i) = gid_set i" "todo (f i) = todo i"
      "type (f i) = type i" "name (f i) = name i"
  shows "usr_eff r s (set_item r f s)"
  using assms by (simp add: usr_eff_def item_at_set_item)

lemma usr_eff_search_uid: "item_at s r = Some i \<Longrightarrow> usr_eff r s (s\<lparr>search_uid := c\<rparr>)"
  by (simp add: usr_eff_def)

lemma usr_eff_blocks:
  assumes "item_at s r = Some i"
  shows "usr_eff r s (step_state (add_user_database r s))"
    and "usr_eff r s (step_state (add_user_nss h r s))"
    and "usr_eff r s (step_state (add_user_suggested h r s))"
    and "usr_eff r s (step_state (add_user_path h r s))"
    and "usr_eff r s (step_state (add_user_reuse_gid h r s))"
  using assms
  by (auto simp: add_user_database_def add_user_nss_def add_user_suggested_def
        add_user_path_def add_user_reuse_gid_def Let_def the_item_Some
        intro!: usr_eff_set_item usr_eff_refl split: lookup.splits option.splits prod.splits)

lemma usr_eff_search:
  assumes i: "item_at s r = Some i"
  shows "usr_eff r s (step_state (add_user_search h r s)) \<and>
         (\<forall>s'. add_user_search h r s = Continue s' \<longrightarrow> uid_set (the_item s' r))"
proof (cases "uid_set i")
  case True
  then show ?thesis
    using i by (simp add: add_user_search_def the_item_Some usr_eff_refl)
next
  case False
  have ti: "the_item s r = i" using i by (rule the_item_Some)
  obtain c where
    d: "(c \<noteq> 0 \<and> uid_is_ok h s c (name i) < 0 \<and>
           scan_uid h (name i) s = Return (uid_is_ok h s c (name i)) (s\<lparr>search_uid := c\<rparr>)) \<or>
        (scan_uid h (name i) s = Continue (s\<lparr>search_uid := c\<rparr>) \<and> (c = 0 \<or> 0 < uid_is_ok h s c (name i)))"
    using scan_uid_result [of s h "name i"] by blast
  from d show ?thesis
  proof
    assume "c \<noteq> 0 \<and> uid_is_ok h s c (name i) < 0 \<and>
           scan_uid h (name i) s = Return (uid_is_ok h s c (name i)) (s\<lparr>search_uid := c\<rparr>)"
    then have "add_user_search h r s = Return (uid_is_ok h s c (name i)) (s\<lparr>search_uid := c\<rparr>)"
      using False by (simp add: add_user_search_def and_then_def ti)
    then show ?thesis using i by (simp add: usr_eff_search_uid)
  next
    assume a: "scan_uid h (name i) s = Continue (s\<lparr>search_uid := c\<rparr>) \<and> (c = 0 \<or> 0 < uid_is_ok h s c (name i))"
    show ?thesis
    proof (cases "c = 0")
      case True
      then have "add_user_search h r s = Return (- int E2BIG) (s\<lparr>search_uid := c\<rparr>)"
        using False a by (simp add: add_user_search_def and_then_def ti)
      then show ?thesis using i by (simp add: usr_eff_search_uid)
    next
      case nz: False
      then have eq: "add_user_search h r s =
          Continue ((set_item r (\<lambda>i. i\<lparr>uid_set := True, uid := c\<rparr>) (s\<lparr>search_uid := c\<rparr>))
                      \<lparr>search_uid := c - 1\<rparr>)"
        using False a by (simp add: add_user_search_def and_then_def ti)
      have e: "usr_eff r s ((set_item r (\<lambda>i. i\<lparr>uid_set := True, uid := c\<rparr>) (s\<lparr>search_uid := c\<rparr>))
                      \<lparr>search_uid := c - 1\<rparr>)"
        using i by (simp add: usr_eff_def item_at_set_item)
      have g: "uid_set (the_item ((set_item r (\<lambda>i. i\<lparr>uid_set := True, uid := c\<rparr>)
                  (s\<lparr>search_uid := c\<rparr>))\<lparr>search_uid := c - 1\<rparr>) r)"
        using i by (simp add: the_item_def item_at_set_item)
      show ?thesis using e g by (simp add: eq)
    qed
  qed
qed

lemma usr_outcome_and_then:
  assumes "usr_eff r s (step_state x)" and "usr_eff r s0 s"
    and "\<And>s1. usr_eff r s0 s1 \<Longrightarrow> usr_outcome r s0 (step_state (g s1))"
  shows "usr_outcome r s0 (step_state (and_then x g))"
proof (cases x)
  case (Return k a)
  then have "usr_eff r s0 a" using assms(1,2) by (auto intro: usr_eff_trans)
  then show ?thesis using Return by (simp add: and_then_def usr_outcome_def)
next
  case (Continue a)
  then have "usr_eff r s0 a" using assms(1,2) by (auto intro: usr_eff_trans)
  then show ?thesis using Continue assms(3) by (simp add: and_then_def)
qed

lemma usr_outcome_todo:
  assumes e: "usr_eff r s0 s6" and g: "uid_set (the_item s6 r)"
    and fresh: "r \<notin> snd ` set (todo_uids s0)"
  shows "usr_outcome r s0 (step_state (add_user_todo r s6))"
proof -
  obtain i6 where i6: "item_at s6 r = Some i6" using usr_eff_item [OF e] by blast
  have ti: "the_item s6 r = i6" using i6 by (rule the_item_Some)
  have same: "todo_uids s6 = todo_uids s0" using e by (simp add: usr_eff_def)
  show ?thesis
  proof (cases "map_of (todo_uids s6) (UID_TO_PTR (uid i6))")
    case None
    then have "add_user_todo r s6 =
        Return 0 (set_item r (\<lambda>i. i\<lparr>todo := True\<rparr>)
                    (s6\<lparr>todo_uids := todo_uids s6 @ [(UID_TO_PTR (uid i6), r)]\<rparr>))"
      by (simp add: add_user_todo_def hashmap_put_def ti)
    then show ?thesis
      using e i6 g ti by (auto simp: usr_outcome_def)
  next
    case (Some v)
    then have "(UID_TO_PTR (uid i6), v) \<in> set (todo_uids s6)" by (rule map_of_SomeD)
    then have "v \<noteq> r" using fresh same by force
    then have "add_user_todo r s6 = Return (- int ENOMEM) s6"
      using Some by (simp add: add_user_todo_def hashmap_put_def ti EEXIST_def)
    then show ?thesis using e by (simp add: usr_outcome_def)
  qed
qed

lemma add_user_outcome:
  assumes i: "item_at s r = Some i" and fresh: "r \<notin> snd ` set (todo_uids s)"
  shows "usr_outcome r s (snd (add_user h r s))"
proof -
  have b: "usr_eff r s1 (step_state (add_user_database r s1))"
      "usr_eff r s1 (step_state (add_user_nss h r s1))"
      "usr_eff r s1 (step_state (add_user_suggested h r s1))"
      "usr_eff r s1 (step_state (add_user_path h r s1))"
      "usr_eff r s1 (step_state (add_user_reuse_gid h r s1))"
      "usr_eff r s1 (step_state (add_user_search h r s1))"
    if e1: "usr_eff r s s1" for s1
  proof -
    obtain i1 where i1: "item_at s1 r = Some i1" using usr_eff_item [OF e1] by blast
    show "usr_eff r s1 (step_state (add_user_database r s1))"
      "usr_eff r s1 (step_state (add_user_nss h r s1))"
      "usr_eff r s1 (step_state (add_user_suggested h r s1))"
      "usr_eff r s1 (step_state (add_user_path h r s1))"
      "usr_eff r s1 (step_state (add_user_reuse_gid h r s1))"
      "usr_eff r s1 (step_state (add_user_search h r s1))"
      using usr_eff_blocks [OF i1] usr_eff_search [OF i1] by simp_all
  qed
  have t6: "usr_outcome r s (step_state (and_then (add_user_search h r s5) (add_user_todo r)))"
    if e: "usr_eff r s s5" for s5
  proof (cases "add_user_search h r s5")
    case (Return k a)
    then have "usr_eff r s a" using b(6) [OF e] e by (auto intro: usr_eff_trans)
    then show ?thesis using Return by (simp add: and_then_def usr_outcome_def)
  next
    case (Continue a)
    obtain i5 where i5: "item_at s5 r = Some i5" using usr_eff_item [OF e] by blast
    have "usr_eff r s a" using b(6) [OF e] e Continue by (auto intro: usr_eff_trans)
    moreover have "uid_set (the_item a r)"
      using usr_eff_search [OF i5, of h] Continue by simp
    ultimately show ?thesis
      using Continue fresh by (simp add: and_then_def usr_outcome_todo)
  qed
  have t5: "usr_outcome r s (step_state (and_then (add_user_reuse_gid h r s4) (\<lambda>s.
              and_then (add_user_search h r s) (add_user_todo r))))"
    if e: "usr_eff r s s4" for s4
    by (rule usr_outcome_and_then [OF b(5) [OF e] e t6])
  have t4: "usr_outcome r s (step_state (and_then (add_user_path h r s3) (\<lambda>s.
              and_then (add_user_reuse_gid h r s) (\<lambda>s.
              and_then (add_user_search h r s) (add_user_todo r)))))"
    if e: "usr_eff r s s3" for s3
    by (rule usr_outcome_and_then [OF b(4) [OF e] e t5])
  have t3: "usr_outcome r s (step_state (and_then (add_user_suggested h r s2) (\<lambda>s.
              and_then (add_user_path h r s) (\<lambda>s.
              and_then (add_user_reuse_gid h r s) (\<lambda>s.
              and_then (add_user_search h r s) (add_user_todo r))))))"
    if e: "usr_eff r s s2" for s2
    by (rule usr_outcome_and_then [OF b(3) [OF e] e t4])
  have t2: "usr_outcome r s (step_state (and_then (add_user_nss h r s1) (\<lambda>s.
              and_then (add_user_suggested h r s) (\<lambda>s.
              and_then (add_user_path h r s) (\<lambda>s.
              and_then (add_user_reuse_gid h r s) (\<lambda>s.
              and_then (add_user_search h r s) (add_user_todo r)))))))"
    if e: "usr_eff r s s1" for s1
    by (rule usr_outcome_and_then [OF b(2) [OF e] e t3])
  have e0: "usr_eff r s s" using i by (rule usr_eff_refl)
  show ?thesis
    unfolding add_user_def snd_finish
    by (rule usr_outcome_and_then [OF b(1) [OF e0] e0 t2])
qed

lemma grows_refl [simp]: "grows s s"
  by (simp add: grows_def)

lemma growsD:
  assumes "grows s s'"
  shows "set (todo_gids s) \<subseteq> set (todo_gids s')" "set (todo_uids s) \<subseteq> set (todo_uids s')"
    and "\<And>r. (item_at s' r = None) = (item_at s r = None)"
    and "\<And>r i i'. item_at s r = Some i \<Longrightarrow> item_at s' r = Some i' \<Longrightarrow> type i' = type i"
  using assms unfolding grows_def by blast+

lemma grows_trans:
  assumes a: "grows s s1" and b: "grows s1 s2"
  shows "grows s s2"
  unfolding grows_def
proof (intro conjI allI impI)
  show "set (todo_gids s) \<subseteq> set (todo_gids s2)"
    using growsD(1) [OF a] growsD(1) [OF b] by (rule subset_trans)
  show "set (todo_uids s) \<subseteq> set (todo_uids s2)"
    using growsD(2) [OF a] growsD(2) [OF b] by (rule subset_trans)
  show "(item_at s2 r = None) = (item_at s r = None)" for r
    using growsD(3) [OF a, of r] growsD(3) [OF b, of r] by simp
  show "type i' = type i" if "item_at s r = Some i" and "item_at s2 r = Some i'" for r i i'
  proof -
    have "item_at s1 r \<noteq> None" using growsD(3) [OF a, of r] that(1) by simp
    then obtain i1 where i1: "item_at s1 r = Some i1" by blast
    have "type i1 = type i" using growsD(4) [OF a that(1) i1] .
    moreover have "type i' = type i1" using growsD(4) [OF b i1 that(2)] .
    ultimately show ?thesis by simp
  qed
qed

lemma grows_well_typed:
  assumes "well_typed s" and g: "grows s s'"
  shows "well_typed s'"
  unfolding well_typed_def
proof (intro allI impI)
  fix r i'
  assume i': "item_at s' r = Some i'"
  then have "item_at s r \<noteq> None" using growsD(3) [OF g, of r] by simp
  then obtain i where i: "item_at s r = Some i" by blast
  have "type i' = type i" using growsD(4) [OF g i i'] .
  moreover have "type i = fst r" using assms(1) i unfolding well_typed_def by blast
  ultimately show "type i' = fst r" by simp
qed

lemma grp_effD:
  assumes "grp_eff r s s'"
  shows "todo_uids s' = todo_uids s" "todo_gids s' = todo_gids s"
    and "\<And>r'. r' \<noteq> r \<Longrightarrow> item_at s' r' = item_at s r'"
    and "\<exists>i i'. item_at s r = Some i \<and> item_at s' r = Some i' \<and> uid i' = uid i \<and>
           uid_set i' = uid_set i \<and> todo i' = todo i \<and> type i' = type i \<and> name i' = name i"
  using assms unfolding grp_eff_def by blast+

lemma usr_effD:
  assumes "usr_eff r s s'"
  shows "todo_uids s' = todo_uids s" "todo_gids s' = todo_gids s"
    and "\<And>r'. r' \<noteq> r \<Longrightarrow> item_at s' r' = item_at s r'"
    and "\<exists>i i'. item_at s r = Some i \<and> item_at s' r = Some i' \<and> gid i' = gid i \<and>
           gid_set i' = gid_set i \<and> todo i' = todo i \<and> type i' = type i \<and> name i' = name i"
  using assms unfolding usr_eff_def by blast+

lemma frame_grows:
  assumes tu: "todo_uids s' = todo_uids s" and tg: "todo_gids s' = todo_gids s"
    and other: "\<And>r'. r' \<noteq> r \<Longrightarrow> item_at s' r' = item_at s r'"
    and i: "item_at s r = Some i" and i': "item_at s' r = Some i'" and ty: "type i' = type i"
  shows "grows s s'"
  unfolding grows_def
proof (intro conjI allI impI)
  show "set (todo_gids s) \<subseteq> set (todo_gids s')" by (simp add: tg)
  show "set (todo_uids s) \<subseteq> set (todo_uids s')" by (simp add: tu)
  show "(item_at s' x = None) = (item_at s x = None)" for x
    using other [of x] i i' by (cases "x = r") simp_all
  show "type j' = type j" if "item_at s x = Some j" and "item_at s' x = Some j'" for x j j'
    using other [of x] i i' ty that by (cases "x = r") simp_all
qed

lemma grp_eff_grows:
  assumes e: "grp_eff r s s'"
  shows "grows s s'"
proof -
  obtain i i' where "item_at s r = Some i" "item_at s' r = Some i'" "type i' = type i"
    using grp_effD(4) [OF e] by blast
  then show ?thesis
    using grp_effD(1,2) [OF e] grp_effD(3) [OF e] by (rule frame_grows [rotated 3])
qed

lemma usr_eff_grows:
  assumes e: "usr_eff r s s'"
  shows "grows s s'"
proof -
  obtain i i' where "item_at s r = Some i" "item_at s' r = Some i'" "type i' = type i"
    using usr_effD(4) [OF e] by blast
  then show ?thesis
    using usr_effD(1,2) [OF e] usr_effD(3) [OF e] by (rule frame_grows [rotated 3])
qed

lemma grows_insert_gid:
  assumes "item_at s r = Some i"
  shows "grows s (set_item r (\<lambda>i. i\<lparr>todo := True\<rparr>) (s\<lparr>todo_gids := todo_gids s @ [e]\<rparr>))"
  unfolding grows_def
proof (intro conjI allI impI)
  fix x j j'
  assume "item_at s x = Some j"
    and "item_at (set_item r (\<lambda>i. i\<lparr>todo := True\<rparr>) (s\<lparr>todo_gids := todo_gids s @ [e]\<rparr>)) x = Some j'"
  then show "type j' = type j"
    by (cases "x = r") (auto simp: item_at_set_item)
qed (use assms in \<open>auto simp: item_at_set_item\<close>)

lemma grows_insert_uid:
  assumes "item_at s r = Some i"
  shows "grows s (set_item r (\<lambda>i. i\<lparr>todo := True\<rparr>) (s\<lparr>todo_uids := todo_uids s @ [e]\<rparr>))"
  unfolding grows_def
proof (intro conjI allI impI)
  fix x j j'
  assume "item_at s x = Some j"
    and "item_at (set_item r (\<lambda>i. i\<lparr>todo := True\<rparr>) (s\<lparr>todo_uids := todo_uids s @ [e]\<rparr>)) x = Some j'"
  then show "type j' = type j"
    by (cases "x = r") (auto simp: item_at_set_item)
qed (use assms in \<open>auto simp: item_at_set_item\<close>)

lemma grp_outcome_grows:
  assumes "grp_outcome r s s'"
  shows "grows s s' \<and> snd ` set (todo_gids s') \<subseteq> insert r (snd ` set (todo_gids s)) \<and>
         todo_uids s' = todo_uids s"
  using assms unfolding grp_outcome_def
proof
  assume e: "grp_eff r s s'"
  show ?thesis using grp_eff_grows [OF e] grp_effD(1,2) [OF e] by auto
next
  assume "\<exists>s6 i6. grp_eff r s s6 \<and> item_at s6 r = Some i6 \<and> gid_set i6 \<and>
         s' = set_item r (\<lambda>i. i\<lparr>todo := True\<rparr>)
                (s6\<lparr>todo_gids := todo_gids s6 @ [(GID_TO_PTR (gid i6), r)]\<rparr>)"
  then obtain s6 i6 where e: "grp_eff r s s6" and i6: "item_at s6 r = Some i6"
    and s': "s' = set_item r (\<lambda>i. i\<lparr>todo := True\<rparr>)
                (s6\<lparr>todo_gids := todo_gids s6 @ [(GID_TO_PTR (gid i6), r)]\<rparr>)"
    by blast
  have "grows s s6" using e by (rule grp_eff_grows)
  moreover have "grows s6 s'" unfolding s' using i6 by (rule grows_insert_gid)
  ultimately have "grows s s'" by (rule grows_trans)
  moreover have "todo_gids s6 = todo_gids s" "todo_uids s6 = todo_uids s"
    using grp_effD(1,2) [OF e] by simp_all
  ultimately show ?thesis by (auto simp: s')
qed

lemma usr_outcome_grows:
  assumes "usr_outcome r s s'"
  shows "grows s s' \<and> snd ` set (todo_uids s') \<subseteq> insert r (snd ` set (todo_uids s)) \<and>
         todo_gids s' = todo_gids s"
  using assms unfolding usr_outcome_def
proof
  assume e: "usr_eff r s s'"
  show ?thesis using usr_eff_grows [OF e] usr_effD(1,2) [OF e] by auto
next
  assume "\<exists>s6 i6. usr_eff r s s6 \<and> item_at s6 r = Some i6 \<and> uid_set i6 \<and>
         s' = set_item r (\<lambda>i. i\<lparr>todo := True\<rparr>)
                (s6\<lparr>todo_uids := todo_uids s6 @ [(UID_TO_PTR (uid i6), r)]\<rparr>)"
  then obtain s6 i6 where e: "usr_eff r s s6" and i6: "item_at s6 r = Some i6"
    and s': "s' = set_item r (\<lambda>i. i\<lparr>todo := True\<rparr>)
                (s6\<lparr>todo_uids := todo_uids s6 @ [(UID_TO_PTR (uid i6), r)]\<rparr>)"
    by blast
  have "grows s s6" using e by (rule usr_eff_grows)
  moreover have "grows s6 s'" unfolding s' using i6 by (rule grows_insert_uid)
  ultimately have "grows s s'" by (rule grows_trans)
  moreover have "todo_gids s6 = todo_gids s" "todo_uids s6 = todo_uids s"
    using usr_effD(1,2) [OF e] by simp_all
  ultimately show ?thesis by (auto simp: s')
qed

lemma pending_inv_grp_eff:
  assumes inv: "pending_inv s" and e: "grp_eff r s s'"
    and fresh: "r \<notin> snd ` set (todo_gids s)"
  shows "pending_inv s'"
proof -
  have tg: "todo_gids s' = todo_gids s" and tu: "todo_uids s' = todo_uids s"
    using grp_effD(1,2) [OF e] by simp_all
  have other: "item_at s' r' = item_at s r'" if "r' \<noteq> r" for r'
    using grp_effD(3) [OF e that] .
  obtain i i' where i: "item_at s r = Some i" and i': "item_at s' r = Some i'"
    and keep: "uid i' = uid i" "uid_set i' = uid_set i" "todo i' = todo i"
    using grp_effD(4) [OF e] by blast
  have g: "\<exists>i. item_at s' r' = Some i \<and> gid_set i \<and> todo i \<and> k = GID_TO_PTR (gid i)"
    if m: "(k, r') \<in> set (todo_gids s')" for k r'
  proof -
    have "(k, r') \<in> set (todo_gids s)" using m tg by simp
    moreover from this have "r' \<noteq> r" using fresh by force
    ultimately show ?thesis using inv other [of r'] by (auto simp: pending_inv_def)
  qed
  have u: "fst r' = ADD_USER \<and>
           (\<exists>i. item_at s' r' = Some i \<and> uid_set i \<and> todo i \<and> k = UID_TO_PTR (uid i))"
    if m: "(k, r') \<in> set (todo_uids s')" for k r'
  proof -
    have old: "fst r' = ADD_USER \<and>
           (\<exists>i. item_at s r' = Some i \<and> uid_set i \<and> todo i \<and> k = UID_TO_PTR (uid i))"
      using m tu inv by (auto simp: pending_inv_def)
    show ?thesis
    proof (cases "r' = r")
      case True
      then show ?thesis using old i i' keep by auto
    next
      case False
      then show ?thesis using old other [of r'] by simp
    qed
  qed
  show ?thesis
    unfolding pending_inv_def using g u by auto
qed

lemma pending_inv_usr_eff:
  assumes inv: "pending_inv s" and e: "usr_eff r s s'"
    and fresh: "r \<notin> snd ` set (todo_uids s)"
  shows "pending_inv s'"
proof -
  have tg: "todo_gids s' = todo_gids s" and tu: "todo_uids s' = todo_uids s"
    using usr_effD(1,2) [OF e] by simp_all
  have other: "item_at s' r' = item_at s r'" if "r' \<noteq> r" for r'
    using usr_effD(3) [OF e that] .
  obtain i i' where i: "item_at s r = Some i" and i': "item_at s' r = Some i'"
    and keep: "gid i' = gid i" "gid_set i' = gid_set i" "todo i' = todo i"
    using usr_effD(4) [OF e] by blast
  have u: "fst r' = ADD_USER \<and>
           (\<exists>i. item_at s' r' = Some i \<and> uid_set i \<and> todo i \<and> k = UID_TO_PTR (uid i))"
    if m: "(k, r') \<in> set (todo_uids s')" for k r'
  proof -
    have "(k, r') \<in> set (todo_uids s)" using m tu by simp
    moreover from this have "r' \<noteq> r" using fresh by force
    ultimately show ?thesis using inv other [of r'] by (auto simp: pending_inv_def)
  qed
  have g: "\<exists>i. item_at s' r' = Some i \<and> gid_set i \<and> todo i \<and> k = GID_TO_PTR (gid i)"
    if m: "(k, r') \<in> set (todo_gids s')" for k r'
  proof -
    have old: "\<exists>i. item_at s r' = Some i \<and> gid_set i \<and> todo i \<and> k = GID_TO_PTR (gid i)"
      using m tg inv by (auto simp: pending_inv_def)
    show ?thesis
    proof (cases "r' = r")
      case True
      then show ?thesis using old i i' keep by auto
    next
      case False
      then show ?thesis using old other [of r'] by simp
    qed
  qed
  show ?thesis
    unfolding pending_inv_def using g u by auto
qed

lemma pending_inv_insert_gid:
  assumes inv: "pending_inv s6" and i6: "item_at s6 r = Some i6" and g: "gid_set i6"
    and fresh: "r \<notin> snd ` set (todo_gids s6)"
  shows "pending_inv (set_item r (\<lambda>i. i\<lparr>todo := True\<rparr>)
           (s6\<lparr>todo_gids := todo_gids s6 @ [(GID_TO_PTR (gid i6), r)]\<rparr>))"
    (is "pending_inv ?s'")
proof -
  have at: "item_at ?s' x = (if x = r then Some (i6\<lparr>todo := True\<rparr>) else item_at s6 x)" for x
    using i6 by (simp add: item_at_set_item)
  have gs: "\<exists>i. item_at ?s' r' = Some i \<and> gid_set i \<and> todo i \<and> k = GID_TO_PTR (gid i)"
    if m: "(k, r') \<in> set (todo_gids ?s')" for k r'
  proof (cases "(k, r') \<in> set (todo_gids s6)")
    case True
    then have "r' \<noteq> r" using fresh by force
    moreover have "\<exists>i. item_at s6 r' = Some i \<and> gid_set i \<and> todo i \<and> k = GID_TO_PTR (gid i)"
      using inv True by (auto simp: pending_inv_def)
    ultimately show ?thesis by (simp add: at)
  next
    case False
    then have "k = GID_TO_PTR (gid i6)" "r' = r" using m by simp_all
    then show ?thesis using g by (simp add: at)
  qed
  have us: "fst r' = ADD_USER \<and>
           (\<exists>i. item_at ?s' r' = Some i \<and> uid_set i \<and> todo i \<and> k = UID_TO_PTR (uid i))"
    if m: "(k, r') \<in> set (todo_uids ?s')" for k r'
  proof -
    have old: "fst r' = ADD_USER \<and>
           (\<exists>i. item_at s6 r' = Some i \<and> uid_set i \<and> todo i \<and> k = UID_TO_PTR (uid i))"
      using m inv by (auto simp: pending_inv_def)
    show ?thesis
      using old i6 by (cases "r' = r") (auto simp: at)
  qed
  show ?thesis
    unfolding pending_inv_def using gs us by blast
qed

lemma pending_inv_insert_uid:
  assumes inv: "pending_inv s6" and i6: "item_at s6 r = Some i6" and g: "uid_set i6"
    and fresh: "r \<notin> snd ` set (todo_uids s6)" and user: "fst r = ADD_USER"
  shows "pending_inv (set_item r (\<lambda>i. i\<lparr>todo := True\<rparr>)
           (s6\<lparr>todo_uids := todo_uids s6 @ [(UID_TO_PTR (uid i6), r)]\<rparr>))"
    (is "pending_inv ?s'")
proof -
  have at: "item_at ?s' x = (if x = r then Some (i6\<lparr>todo := True\<rparr>) else item_at s6 x)" for x
    using i6 by (simp add: item_at_set_item)
  have us: "fst r' = ADD_USER \<and>
           (\<exists>i. item_at ?s' r' = Some i \<and> uid_set i \<and> todo i \<and> k = UID_TO_PTR (uid i))"
    if m: "(k, r') \<in> set (todo_uids ?s')" for k r'
  proof (cases "(k, r') \<in> set (todo_uids s6)")
    case True
    then have "r' \<noteq> r" using fresh by force
    moreover have "fst r' = ADD_USER \<and>
           (\<exists>i. item_at s6 r' = Some i \<and> uid_set i \<and> todo i \<and> k = UID_TO_PTR (uid i))"
      using inv True by (auto simp: pending_inv_def)
    ultimately show ?thesis by (simp add: at)
  next
    case False
    then have "k = UID_TO_PTR (uid i6)" "r' = r" using m by simp_all
    then show ?thesis using g user by (simp add: at)
  qed
  have gs: "\<exists>i. item_at ?s' r' = Some i \<and> gid_set i \<and> todo i \<and> k = GID_TO_PTR (gid i)"
    if m: "(k, r') \<in> set (todo_gids ?s')" for k r'
  proof -
    have old: "\<exists>i. item_at s6 r' = Some i \<and> gid_set i \<and> todo i \<and> k = GID_TO_PTR (gid i)"
      using m inv by (auto simp: pending_inv_def)
    show ?thesis
      using old i6 by (cases "r' = r") (auto simp: at)
  qed
  show ?thesis
    unfolding pending_inv_def using gs us by blast
qed

lemma pending_inv_grp_outcome:
  assumes inv: "pending_inv s" and o: "grp_outcome r s s'"
    and fresh: "r \<notin> snd ` set (todo_gids s)"
  shows "pending_inv s'"
  using o unfolding grp_outcome_def
proof
  assume e: "grp_eff r s s'"
  show ?thesis using inv e fresh by (rule pending_inv_grp_eff)
next
  assume "\<exists>s6 i6. grp_eff r s s6 \<and> item_at s6 r = Some i6 \<and> gid_set i6 \<and>
         s' = set_item r (\<lambda>i. i\<lparr>todo := True\<rparr>)
                (s6\<lparr>todo_gids := todo_gids s6 @ [(GID_TO_PTR (gid i6), r)]\<rparr>)"
  then obtain s6 i6 where e: "grp_eff r s s6" and i6: "item_at s6 r = Some i6"
    and g: "gid_set i6"
    and s': "s' = set_item r (\<lambda>i. i\<lparr>todo := True\<rparr>)
                (s6\<lparr>todo_gids := todo_gids s6 @ [(GID_TO_PTR (gid i6), r)]\<rparr>)"
    by blast
  have inv6: "pending_inv s6" using inv e fresh by (rule pending_inv_grp_eff)
  have "r \<notin> snd ` set (todo_gids s6)" using fresh grp_effD(2) [OF e] by simp
  then show ?thesis unfolding s' using inv6 i6 g by (intro pending_inv_insert_gid)
qed

lemma pending_inv_usr_outcome:
  assumes inv: "pending_inv s" and o: "usr_outcome r s s'"
    and fresh: "r \<notin> snd ` set (todo_uids s)" and user: "fst r = ADD_USER"
  shows "pending_inv s'"
  using o unfolding usr_outcome_def
proof
  assume e: "usr_eff r s s'"
  show ?thesis using inv e fresh by (rule pending_inv_usr_eff)
next
  assume "\<exists>s6 i6. usr_eff r s s6 \<and> item_at s6 r = Some i6 \<and> uid_set i6 \<and>
         s' = set_item r (\<lambda>i. i\<lparr>todo := True\<rparr>)
                (s6\<lparr>todo_uids := todo_uids s6 @ [(UID_TO_PTR (uid i6), r)]\<rparr>)"
  then obtain s6 i6 where e: "usr_eff r s s6" and i6: "item_at s6 r = Some i6"
    and g: "uid_set i6"
    and s': "s' = set_item r (\<lambda>i. i\<lparr>todo := True\<rparr>)
                (s6\<lparr>todo_uids := todo_uids s6 @ [(UID_TO_PTR (uid i6), r)]\<rparr>)"
    by blast
  have inv6: "pending_inv s6" using inv e fresh by (rule pending_inv_usr_eff)
  have "r \<notin> snd ` set (todo_uids s6)" using fresh usr_effD(1) [OF e] by simp
  then show ?thesis unfolding s' using inv6 i6 g user by (intro pending_inv_insert_uid)
qed

lemma process_item_user_step:
  assumes inv: "pending_inv s" and wt: "well_typed s" and i: "item_at s r = Some i"
    and user: "fst r = ADD_USER"
    and fg: "r \<notin> snd ` set (todo_gids s)" and fu: "r \<notin> snd ` set (todo_uids s)"
  shows "pending_inv (snd (process_item h r s)) \<and> grows s (snd (process_item h r s)) \<and>
         snd ` set (todo_gids (snd (process_item h r s))) \<subseteq> insert r (snd ` set (todo_gids s)) \<and>
         snd ` set (todo_uids (snd (process_item h r s))) \<subseteq> insert r (snd ` set (todo_uids s))"
proof -
  have ty: "type (the_item s r) = ADD_USER"
    using wt i user unfolding well_typed_def the_item_def by (metis option.sel)
  obtain k s1 where ag: "add_group h r s = (k, s1)" by force
  have o1: "grp_outcome r s s1"
    using add_group_outcome [OF i fg, of h] ag by simp
  have inv1: "pending_inv s1" using inv o1 fg by (rule pending_inv_grp_outcome)
  have g1: "grows s s1" and r1: "snd ` set (todo_gids s1) \<subseteq> insert r (snd ` set (todo_gids s))"
    and u1: "todo_uids s1 = todo_uids s"
    using grp_outcome_grows [OF o1] by simp_all
  show ?thesis
  proof (cases "k < 0")
    case True
    then have "snd (process_item h r s) = s1"
      by (simp add: process_item_def ty ag)
    then show ?thesis using inv1 g1 r1 u1 by auto
  next
    case False
    then have eq: "snd (process_item h r s) = snd (add_user h r s1)"
      by (simp add: process_item_def ty ag)
    have "item_at s1 r \<noteq> None" using growsD(3) [OF g1, of r] i by simp
    then obtain i1 where i1: "item_at s1 r = Some i1" by blast
    have fu1: "r \<notin> snd ` set (todo_uids s1)" using fu u1 by simp
    have o2: "usr_outcome r s1 (snd (add_user h r s1))"
      using i1 fu1 by (rule add_user_outcome)
    have inv2: "pending_inv (snd (add_user h r s1))"
      using inv1 o2 fu1 user by (rule pending_inv_usr_outcome)
    have g2: "grows s1 (snd (add_user h r s1))"
      and r2: "snd ` set (todo_uids (snd (add_user h r s1))) \<subseteq> insert r (snd ` set (todo_uids s1))"
      and t2: "todo_gids (snd (add_user h r s1)) = todo_gids s1"
      using usr_outcome_grows [OF o2] by simp_all
    have "grows s (snd (add_user h r s1))" using g1 g2 by (rule grows_trans)
    then show ?thesis using inv2 r1 r2 t2 u1 by (simp add: eq)
  qed
qed

lemma process_item_group_step:
  assumes inv: "pending_inv s" and wt: "well_typed s" and i: "item_at s r = Some i"
    and grp: "fst r = ADD_GROUP"
    and fg: "r \<notin> snd ` set (todo_gids s)"
    and only: "\<forall>r' \<in> snd ` set (todo_gids s). fst r' = ADD_GROUP"
  shows "pending_inv (snd (process_item h r s)) \<and> grows s (snd (process_item h r s)) \<and>
         snd ` set (todo_gids (snd (process_item h r s))) \<subseteq> insert r (snd ` set (todo_gids s)) \<and>
         todo_uids (snd (process_item h r s)) = todo_uids s"
proof -
  have ti: "the_item s r = i" using i by (rule the_item_Some)
  have ty: "type i = ADD_GROUP"
    using wt i grp unfolding well_typed_def by metis
  show ?thesis
  proof (cases "hashmap_get (users s) (name i)")
    case None
    then have eq: "snd (process_item h r s) = snd (add_group h r s)"
      by (simp add: process_item_def ti ty)
    have o: "grp_outcome r s (snd (add_group h r s))"
      using i fg by (rule add_group_outcome)
    show ?thesis
      unfolding eq
      using pending_inv_grp_outcome [OF inv o fg] grp_outcome_grows [OF o] by simp
  next
    case (Some j)
    define u where "u = (ADD_USER, name i)"
    define s1 where "s1 = (if gid_set i then
        set_item u (\<lambda>j. j\<lparr>gid := gid i, gid_set := True\<rparr>) s else s)"
    define s2 where "s2 = (case gid_path i of
        Some p \<Rightarrow> set_item u (\<lambda>j. j\<lparr>gid_path := Some p\<rparr>) s1 | None \<Rightarrow> s1)"
    have eq: "snd (process_item h r s) = s2"
      using Some
      by (cases "gid_path i") (simp_all add: process_item_def ti ty s1_def s2_def u_def Let_def)
    have j: "item_at s u = Some j"
      using Some by (simp add: item_at_def u_def)
    have e1: "grp_eff u s s1"
      unfolding s1_def using j by (auto intro: grp_eff_refl grp_eff_set_item)
    obtain j1 where j1: "item_at s1 u = Some j1" using grp_eff_item [OF e1] by blast
    have e12: "grp_eff u s1 s2"
      unfolding s2_def using j1
      by (cases "gid_path i") (auto intro: grp_eff_refl grp_eff_set_item)
    have e: "grp_eff u s s2" using e1 e12 by (rule grp_eff_trans)
    have fresh: "u \<notin> snd ` set (todo_gids s)"
      using only by (auto simp: u_def)
    have "pending_inv s2" using inv e fresh by (rule pending_inv_grp_eff)
    moreover have "grows s s2" using e by (rule grp_eff_grows)
    moreover have "todo_gids s2 = todo_gids s" "todo_uids s2 = todo_uids s"
      using grp_effD(1,2) [OF e] by simp_all
    ultimately show ?thesis unfolding eq by auto
  qed
qed

lemma map_fst_hashmap_modify: "map fst (hashmap_modify h k f) = map fst h"
  by (induction h) (auto simp: hashmap_modify_def)

lemma item_keys_set_item [simp]: "item_keys (set_item r f s) = item_keys s"
  by (cases "fst r") (simp_all add: item_keys_def set_item_def map_fst_hashmap_modify)

lemma item_keys_fields [simp]:
  "item_keys (s\<lparr>todo_uids := a\<rparr>) = item_keys s"
  "item_keys (s\<lparr>todo_gids := a\<rparr>) = item_keys s"
  "item_keys (s\<lparr>search_uid := c\<rparr>) = item_keys s"
  "item_keys (s\<lparr>search_gid := c\<rparr>) = item_keys s"
  by (simp_all add: item_keys_def)

lemma item_keys_group_blocks:
  "item_keys (step_state (add_group_database r s)) = item_keys s"
  "item_keys (step_state (add_group_nss h r s)) = item_keys s"
  "item_keys (step_state (add_group_suggested h r s)) = item_keys s"
  "item_keys (step_state (add_group_reuse_uid h r s)) = item_keys s"
  "item_keys (step_state (add_group_path h r s)) = item_keys s"
  "item_keys (step_state (add_group_todo r s)) = item_keys s"
  by (auto simp: add_group_database_def add_group_nss_def add_group_suggested_def
        add_group_path_def add_group_reuse_uid_def add_group_todo_def Let_def
        split: lookup.splits option.splits prod.splits)

lemma item_keys_user_blocks:
  "item_keys (step_state (add_user_database r s)) = item_keys s"
  "item_keys (step_state (add_user_nss h r s)) = item_keys s"
  "item_keys (step_state (add_user_suggested h r s)) = item_keys s"
  "item_keys (step_state (add_user_path h r s)) = item_keys s"
  "item_keys (step_state (add_user_reuse_gid h r s)) = item_keys s"
  "item_keys (step_state (add_user_todo r s)) = item_keys s"
  by (auto simp: add_user_database_def add_user_nss_def add_user_suggested_def
        add_user_path_def add_user_reuse_gid_def add_user_todo_def Let_def
        split: lookup.splits option.splits prod.splits)

lemma item_keys_scan_gid: "item_keys (step_state (scan_gid h s)) = item_keys s"
  using scan_gid_result [of s h] by auto

lemma item_keys_scan_uid: "item_keys (step_state (scan_uid h nm s)) = item_keys s"
  using scan_uid_result [of s h nm] by auto

lemma item_keys_add_group_search:
  "item_keys (step_state (add_group_search h r s)) = item_keys s"
proof (cases "scan_gid h s")
  case (Return k a)
  then show ?thesis
    using item_keys_scan_gid [of h s] by (simp add: add_group_search_def and_then_def)
next
  case (Continue a)
  then show ?thesis
    using item_keys_scan_gid [of h s] by (simp add: add_group_search_def and_then_def)
qed

lemma item_keys_add_user_search:
  "item_keys (step_state (add_user_search h r s)) = item_keys s"
proof (cases "scan_uid h (name (the_item s r)) s")
  case (Return k a)
  then show ?thesis
    using item_keys_scan_uid [of h "name (the_item s r)" s]
    by (simp add: add_user_search_def and_then_def)
next
  case (Continue a)
  then show ?thesis
    using item_keys_scan_uid [of h "name (the_item s r)" s]
    by (simp add: add_user_search_def and_then_def)
qed

lemma item_keys_and_then:
  assumes "item_keys (step_state x) = item_keys s"
    and "\<And>b. item_keys (step_state (g b)) = item_keys b"
  shows "item_keys (step_state (and_then x g)) = item_keys s"
  using assms by (cases x) (simp_all add: and_then_def)

lemma item_keys_add_group: "item_keys (snd (add_group h r s)) = item_keys s"
  unfolding add_group_def snd_finish
  by (intro item_keys_and_then item_keys_group_blocks item_keys_add_group_search)

lemma item_keys_add_user: "item_keys (snd (add_user h r s)) = item_keys s"
  unfolding add_user_def snd_finish
  by (intro item_keys_and_then item_keys_user_blocks item_keys_add_user_search)

lemma item_keys_process_item: "item_keys (snd (process_item h r s)) = item_keys s"
proof (cases "type (the_item s r)")
  case ADD_USER
  obtain k s1 where ag: "add_group h r s = (k, s1)" by force
  have "item_keys s1 = item_keys s" using item_keys_add_group [of h r s] ag by simp
  then show ?thesis
    using ADD_USER ag item_keys_add_user [of h r s1] by (simp add: process_item_def)
next
  case ADD_GROUP
  then show ?thesis
    using item_keys_add_group [of h r s]
    by (auto simp: process_item_def Let_def split: option.splits)
qed

lemma item_keys_process_items: "item_keys (process_items h rs s) = item_keys s"
  by (induction rs arbitrary: s) (simp_all add: item_keys_process_item)

lemma item_at_declared:
  "n \<in> fst ` set (groups s) \<Longrightarrow> item_at s (ADD_GROUP, n) \<noteq> None"
  "n \<in> fst ` set (users s) \<Longrightarrow> item_at s (ADD_USER, n) \<noteq> None"
  by (simp_all add: item_at_def hashmap_get_def map_of_eq_None_iff)

lemma process_items_groups:
  assumes "pending_inv s" and "well_typed s" and "distinct rs"
    and "\<forall>r \<in> set rs. fst r = ADD_GROUP \<and> item_at s r \<noteq> None \<and> r \<notin> snd ` set (todo_gids s)"
    and "\<forall>r' \<in> snd ` set (todo_gids s). fst r' = ADD_GROUP"
  shows "pending_inv (process_items h rs s) \<and> grows s (process_items h rs s) \<and>
         todo_uids (process_items h rs s) = todo_uids s \<and>
         (\<forall>r' \<in> snd ` set (todo_gids (process_items h rs s)). fst r' = ADD_GROUP)"
  using assms
proof (induction rs arbitrary: s)
  case Nil
  then show ?case by simp
next
  case (Cons r rs)
  define s1 where "s1 = snd (process_item h r s)"
  obtain i where i: "item_at s r = Some i" using Cons.prems(4) by auto
  have grp: "fst r = ADD_GROUP" and fg: "r \<notin> snd ` set (todo_gids s)"
    using Cons.prems(4) by auto
  have step: "pending_inv s1 \<and> grows s s1 \<and>
         snd ` set (todo_gids s1) \<subseteq> insert r (snd ` set (todo_gids s)) \<and>
         todo_uids s1 = todo_uids s"
    unfolding s1_def
    using Cons.prems(1,2) i grp fg Cons.prems(5) by (rule process_item_group_step)
  have g1: "grows s s1" using step by simp
  have wt1: "well_typed s1" using Cons.prems(2) g1 by (rule grows_well_typed)
  have only1: "\<forall>r' \<in> snd ` set (todo_gids s1). fst r' = ADD_GROUP"
    using step grp Cons.prems(5) by blast
  have rest: "\<forall>r' \<in> set rs. fst r' = ADD_GROUP \<and> item_at s1 r' \<noteq> None \<and>
                r' \<notin> snd ` set (todo_gids s1)"
  proof
    fix r'
    assume m: "r' \<in> set rs"
    then have "r' \<noteq> r" using Cons.prems(3) by auto
    moreover have "fst r' = ADD_GROUP" "item_at s r' \<noteq> None" "r' \<notin> snd ` set (todo_gids s)"
      using Cons.prems(4) m by auto
    ultimately show "fst r' = ADD_GROUP \<and> item_at s1 r' \<noteq> None \<and>
                r' \<notin> snd ` set (todo_gids s1)"
      using step growsD(3) [OF g1, of r'] by auto
  qed
  have d: "distinct rs" using Cons.prems(3) by simp
  have ih: "pending_inv (process_items h rs s1) \<and> grows s1 (process_items h rs s1) \<and>
         todo_uids (process_items h rs s1) = todo_uids s1 \<and>
         (\<forall>r' \<in> snd ` set (todo_gids (process_items h rs s1)). fst r' = ADD_GROUP)"
    using step wt1 d rest only1 by (intro Cons.IH) simp_all
  have "grows s (process_items h rs s1)" using g1 ih by (blast intro: grows_trans)
  then show ?case using ih step by (simp add: s1_def)
qed

lemma process_items_users:
  assumes "pending_inv s" and "well_typed s" and "distinct rs"
    and "\<forall>r \<in> set rs. fst r = ADD_USER \<and> item_at s r \<noteq> None \<and>
           r \<notin> snd ` set (todo_gids s) \<and> r \<notin> snd ` set (todo_uids s)"
  shows "pending_inv (process_items h rs s) \<and> grows s (process_items h rs s)"
  using assms
proof (induction rs arbitrary: s)
  case Nil
  then show ?case by simp
next
  case (Cons r rs)
  define s1 where "s1 = snd (process_item h r s)"
  obtain i where i: "item_at s r = Some i" using Cons.prems(4) by auto
  have usr: "fst r = ADD_USER" and fg: "r \<notin> snd ` set (todo_gids s)"
    and fu: "r \<notin> snd ` set (todo_uids s)"
    using Cons.prems(4) by auto
  have step: "pending_inv s1 \<and> grows s s1 \<and>
         snd ` set (todo_gids s1) \<subseteq> insert r (snd ` set (todo_gids s)) \<and>
         snd ` set (todo_uids s1) \<subseteq> insert r (snd ` set (todo_uids s))"
    unfolding s1_def
    using Cons.prems(1,2) i usr fg fu by (rule process_item_user_step)
  have g1: "grows s s1" using step by simp
  have wt1: "well_typed s1" using Cons.prems(2) g1 by (rule grows_well_typed)
  have rest: "\<forall>r' \<in> set rs. fst r' = ADD_USER \<and> item_at s1 r' \<noteq> None \<and>
                r' \<notin> snd ` set (todo_gids s1) \<and> r' \<notin> snd ` set (todo_uids s1)"
  proof
    fix r'
    assume m: "r' \<in> set rs"
    then have "r' \<noteq> r" using Cons.prems(3) by auto
    moreover have "fst r' = ADD_USER" "item_at s r' \<noteq> None" "r' \<notin> snd ` set (todo_gids s)"
        "r' \<notin> snd ` set (todo_uids s)"
      using Cons.prems(4) m by auto
    ultimately show "fst r' = ADD_USER \<and> item_at s1 r' \<noteq> None \<and>
                r' \<notin> snd ` set (todo_gids s1) \<and> r' \<notin> snd ` set (todo_uids s1)"
      using step growsD(3) [OF g1, of r'] by auto
  qed
  have d: "distinct rs" using Cons.prems(3) by simp
  have ih: "pending_inv (process_items h rs s1) \<and> grows s1 (process_items h rs s1)"
    using step wt1 d rest by (intro Cons.IH) simp_all
  have "grows s (process_items h rs s1)" using g1 ih by (blast intro: grows_trans)
  then show ?case using ih by (simp add: s1_def)
qed

lemma pending_inv_empty: "todo_uids s = [] \<Longrightarrow> todo_gids s = [] \<Longrightarrow> pending_inv s"
  by (simp add: pending_inv_def)

lemma two_loops:
  assumes e: "todo_uids s = []" "todo_gids s = []" and wt: "well_typed s"
    and d: "distinct gs" "distinct us"
    and sub: "set gs \<subseteq> fst ` set (groups s)" "set us \<subseteq> fst ` set (users s)"
    and s1: "s1 = process_items h (map (Pair ADD_GROUP) gs) s"
    and s2: "s2 = process_items h (map (Pair ADD_USER) us) s1"
  shows "pending_inv s1 \<and> pending_inv s2 \<and> grows s s1 \<and> grows s1 s2"
proof -
  have inv: "pending_inv s" using e by (rule pending_inv_empty)
  have dg: "distinct (map (Pair ADD_GROUP) gs)"
    using d(1) by (simp add: distinct_map inj_on_def)
  have du: "distinct (map (Pair ADD_USER) us)"
    using d(2) by (simp add: distinct_map inj_on_def)
  have pg: "\<forall>r \<in> set (map (Pair ADD_GROUP) gs).
              fst r = ADD_GROUP \<and> item_at s r \<noteq> None \<and> r \<notin> snd ` set (todo_gids s)"
  proof
    fix r
    assume "r \<in> set (map (Pair ADD_GROUP) gs)"
    then obtain n where r: "r = (ADD_GROUP, n)" and n: "n \<in> set gs" by auto
    have "n \<in> fst ` set (groups s)" using sub(1) n by blast
    then have "item_at s r \<noteq> None" unfolding r by (rule item_at_declared(1))
    then show "fst r = ADD_GROUP \<and> item_at s r \<noteq> None \<and> r \<notin> snd ` set (todo_gids s)"
      using r e(2) by simp
  qed
  have og: "\<forall>r' \<in> snd ` set (todo_gids s). fst r' = ADD_GROUP"
    using e(2) by simp
  have g: "pending_inv s1 \<and> grows s s1 \<and> todo_uids s1 = todo_uids s \<and>
         (\<forall>r' \<in> snd ` set (todo_gids s1). fst r' = ADD_GROUP)"
    unfolding s1 using inv wt dg pg og by (rule process_items_groups)
  have wt1: "well_typed s1" using wt g by (blast intro: grows_well_typed)
  have pu: "\<forall>r \<in> set (map (Pair ADD_USER) us).
              fst r = ADD_USER \<and> item_at s1 r \<noteq> None \<and>
              r \<notin> snd ` set (todo_gids s1) \<and> r \<notin> snd ` set (todo_uids s1)"
  proof
    fix r
    assume "r \<in> set (map (Pair ADD_USER) us)"
    then obtain n where r: "r = (ADD_USER, n)" and n: "n \<in> set us" by auto
    have "n \<in> fst ` set (users s)" using sub(2) n by blast
    then have "item_at s r \<noteq> None" unfolding r by (rule item_at_declared(2))
    then have "item_at s1 r \<noteq> None" using g growsD(3) [of s s1 r] by simp
    moreover have "r \<notin> snd ` set (todo_gids s1)" using g r by force
    moreover have "r \<notin> snd ` set (todo_uids s1)" using g e(1) by simp
    ultimately show "fst r = ADD_USER \<and> item_at s1 r \<noteq> None \<and>
              r \<notin> snd ` set (todo_gids s1) \<and> r \<notin> snd ` set (todo_uids s1)"
      using r by simp
  qed
  have u: "pending_inv s2 \<and> grows s1 s2"
    unfolding s2 using g wt1 du pu by (intro process_items_users) simp_all
  show ?thesis using g u by simp
qed

lemma reconcile_as_two_loops:
  "reconcile h s =
     process_items h (map (Pair ADD_USER)
         (map fst (users (process_items h (map (Pair ADD_GROUP) (map fst (groups s))) s))))
       (process_items h (map (Pair ADD_GROUP) (map fst (groups s))) s)"
proof -
  have a: "map (\<lambda>(n, i). (ADD_GROUP, n)) xs = map (Pair ADD_GROUP) (map fst xs)"
    for xs :: "(string \<times> Item) list"
    by (induction xs) auto
  have b: "map (\<lambda>(n, i). (ADD_USER, n)) xs = map (Pair ADD_USER) (map fst xs)"
    for xs :: "(string \<times> Item) list"
    by (induction xs) auto
  show ?thesis by (simp add: reconcile_def Let_def a b)
qed

lemma pending_inv_reconcile:
  assumes e: "todo_uids s = []" "todo_gids s = []" and wt: "well_typed s"
    and d: "distinct (map fst (groups s))" "distinct (map fst (users s))"
  shows "pending_inv (reconcile h s)"
proof -
  define s1 where "s1 = process_items h (map (Pair ADD_GROUP) (map fst (groups s))) s"
  have k: "map fst (users s1) = map fst (users s)"
    using item_keys_process_items [of h "map (Pair ADD_GROUP) (map fst (groups s))" s]
    by (simp add: item_keys_def s1_def)
  have "pending_inv s1 \<and> pending_inv (reconcile h s) \<and> grows s s1 \<and> grows s1 (reconcile h s)"
  proof (rule two_loops [OF e wt d(1) _ _ _ s1_def])
    show "distinct (map fst (users s1))" using d(2) k by simp
    show "set (map fst (groups s)) \<subseteq> fst ` set (groups s)" by simp
    show "set (map fst (users s1)) \<subseteq> fst ` set (users s)" using k by simp
    show "reconcile h s = process_items h (map (Pair ADD_USER) (map fst (users s1))) s1"
      unfolding s1_def by (rule reconcile_as_two_loops)
  qed
  then show ?thesis by simp
qed

lemma well_typed_httpd_session: "well_typed httpd_session"
  unfolding well_typed_def
proof (intro allI impI)
  fix r i
  assume "item_at httpd_session r = Some i"
  then show "type i = fst r"
    by (cases r; cases "fst r")
       (auto simp: item_at_def hashmap_get_def httpd_session_def httpd_item_def
          fresh_session_def split: if_splits)
qed

theorem item_in_both_pending_sets_counterexample:
  "(UID_TO_PTR 999, (ADD_USER, ''httpd'')) \<in> set (todo_uids (reconcile quiet_host httpd_session)) \<and>
   (GID_TO_PTR 999, (ADD_USER, ''httpd'')) \<in> set (todo_gids (reconcile quiet_host httpd_session))"
  by (simp add: model_defs fixture_defs httpd_session_def httpd_item_def)

lemma pending_le_refl [simp]: "pending_le s s"
  by (simp add: pending_le_def)

lemma pending_le_trans: "pending_le s s1 \<Longrightarrow> pending_le s1 s2 \<Longrightarrow> pending_le s s2"
  by (auto simp: pending_le_def)

lemma pending_le_set_item [simp]: "pending_le s (set_item r f s') = pending_le s s'"
  by (simp add: pending_le_def)

lemma pending_le_cursor [simp]:
  "pending_le s (s'\<lparr>search_uid := c\<rparr>) = pending_le s s'"
  "pending_le s (s'\<lparr>search_gid := c\<rparr>) = pending_le s s'"
  by (simp_all add: pending_le_def)

lemma pending_le_and_then:
  assumes "pending_le s (step_state x)"
    and "\<And>s1. pending_le s1 (step_state (g s1))"
  shows "pending_le s (step_state (and_then x g))"
proof (cases x)
  case (Return k s1)
  then show ?thesis using assms(1) by (simp add: and_then_def)
next
  case (Continue s1)
  then show ?thesis
    using assms(1) assms(2) [of s1] by (auto simp: and_then_def intro: pending_le_trans)
qed

lemma set_hashmap_put: "set h \<subseteq> set (snd (hashmap_put h k v))"
  by (auto simp: hashmap_put_def split: option.splits)

lemma pending_le_user_blocks:
  "pending_le s (step_state (add_user_database r s))"
  "pending_le s (step_state (add_user_nss h r s))"
  "pending_le s (step_state (add_user_suggested h r s))"
  "pending_le s (step_state (add_user_path h r s))"
  "pending_le s (step_state (add_user_reuse_gid h r s))"
  by (auto simp: add_user_database_def add_user_nss_def add_user_suggested_def
        add_user_path_def add_user_reuse_gid_def Let_def
        split: lookup.splits option.splits prod.splits)

lemma pending_le_group_blocks:
  "pending_le s (step_state (add_group_database r s))"
  "pending_le s (step_state (add_group_nss h r s))"
  "pending_le s (step_state (add_group_suggested h r s))"
  "pending_le s (step_state (add_group_reuse_uid h r s))"
  "pending_le s (step_state (add_group_path h r s))"
  by (auto simp: add_group_database_def add_group_nss_def add_group_suggested_def
        add_group_path_def add_group_reuse_uid_def Let_def
        split: lookup.splits option.splits prod.splits)

lemma pending_le_add_user_todo: "pending_le s (step_state (add_user_todo r s))"
  using set_hashmap_put [of "todo_uids s" "UID_TO_PTR (uid (the_item s r))" r]
  by (auto simp: add_user_todo_def pending_le_def split: prod.splits)

lemma pending_le_add_group_todo: "pending_le s (step_state (add_group_todo r s))"
  using set_hashmap_put [of "todo_gids s" "GID_TO_PTR (gid (the_item s r))" r]
  by (auto simp: add_group_todo_def pending_le_def split: prod.splits)

lemma pending_le_scan_uid: "pending_le s (step_state (scan_uid h nm s))"
  using scan_uid_result [of s h nm] by auto

lemma pending_le_scan_gid: "pending_le s (step_state (scan_gid h s))"
  using scan_gid_result [of s h] by auto

lemma pending_le_add_user_search: "pending_le s (step_state (add_user_search h r s))"
proof (cases "scan_uid h (name (the_item s r)) s")
  case (Return k a)
  then show ?thesis
    using pending_le_scan_uid [of s h "name (the_item s r)"]
    by (simp add: add_user_search_def and_then_def)
next
  case (Continue a)
  then show ?thesis
    using pending_le_scan_uid [of s h "name (the_item s r)"]
    by (simp add: add_user_search_def and_then_def)
qed

lemma pending_le_add_group_search: "pending_le s (step_state (add_group_search h r s))"
proof (cases "scan_gid h s")
  case (Return k a)
  then show ?thesis
    using pending_le_scan_gid [of s h] by (simp add: add_group_search_def and_then_def)
next
  case (Continue a)
  then show ?thesis
    using pending_le_scan_gid [of s h] by (simp add: add_group_search_def and_then_def)
qed

lemma pending_le_add_user: "pending_le s (snd (add_user h r s))"
  unfolding add_user_def snd_finish
  by (intro pending_le_and_then pending_le_user_blocks pending_le_add_user_search
        pending_le_add_user_todo)

lemma pending_le_add_group: "pending_le s (snd (add_group h r s))"
  unfolding add_group_def snd_finish
  by (intro pending_le_and_then pending_le_group_blocks pending_le_add_group_search
        pending_le_add_group_todo)

lemma pending_le_process_item: "pending_le s (snd (process_item h r s))"
proof (cases "type (the_item s r)")
  case ADD_USER
  obtain k s1 where ag: "add_group h r s = (k, s1)" by force
  have "pending_le s s1" using pending_le_add_group [of s h r] ag by simp
  moreover have "pending_le s1 (snd (add_user h r s1))" by (rule pending_le_add_user)
  ultimately show ?thesis
    using ADD_USER ag by (auto simp: process_item_def intro: pending_le_trans)
next
  case ADD_GROUP
  then show ?thesis
    using pending_le_add_group [of s h r]
    by (auto simp: process_item_def Let_def split: option.splits)
qed

lemma pending_le_process_items: "pending_le s (process_items h rs s)"
proof (induction rs arbitrary: s)
  case Nil
  show ?case by simp
next
  case (Cons r rs)
  show ?case
    using Cons.IH [of "snd (process_item h r s)"] pending_le_process_item [of s h r]
    by (auto intro: pending_le_trans)
qed

lemma process_items_append:
  "process_items h (xs @ ys) s = process_items h ys (process_items h xs s)"
  by (induction xs arbitrary: s) simp_all

lemma pending_inv_frozen:
  assumes "pending_inv s" and "pending_inv s'" and "pending_le s s'"
  shows "frozen s s'"
proof -
  have g: "GID_TO_PTR (gid (the_item t r)) = k"
    if "pending_inv t" and "(k, r) \<in> set (todo_gids t)" for t k r
    using that by (auto simp: pending_inv_def the_item_def)
  have u: "UID_TO_PTR (uid (the_item t r)) = k"
    if "pending_inv t" and "(k, r) \<in> set (todo_uids t)" for t k r
    using that by (auto simp: pending_inv_def the_item_def)
  have "(k, r) \<in> set (todo_gids s') \<and> GID_TO_PTR (gid (the_item s r)) = k \<and>
         GID_TO_PTR (gid (the_item s' r)) = k" if m: "(k, r) \<in> set (todo_gids s)" for k r
  proof -
    have m': "(k, r) \<in> set (todo_gids s')" using m assms(3) by (auto simp: pending_le_def)
    show ?thesis using m' g [OF assms(1) m] g [OF assms(2) m'] by simp
  qed
  moreover have "(k, r) \<in> set (todo_uids s') \<and> UID_TO_PTR (uid (the_item s r)) = k \<and>
         UID_TO_PTR (uid (the_item s' r)) = k" if m: "(k, r) \<in> set (todo_uids s)" for k r
  proof -
    have m': "(k, r) \<in> set (todo_uids s')" using m assms(3) by (auto simp: pending_le_def)
    show ?thesis using m' u [OF assms(1) m] u [OF assms(2) m'] by simp
  qed
  ultimately show ?thesis unfolding frozen_def by blast
qed

lemma pending_inv_one_key:
  assumes "pending_inv s"
  shows "one_key_each s"
proof -
  have g: "GID_TO_PTR (gid (the_item s r)) = k" if "(k, r) \<in> set (todo_gids s)" for k r
    using assms that by (auto simp: pending_inv_def the_item_def)
  have u: "UID_TO_PTR (uid (the_item s r)) = k \<and> fst r = ADD_USER"
    if "(k, r) \<in> set (todo_uids s)" for k r
    using assms that by (auto simp: pending_inv_def the_item_def)
  have "k = k'" if "(k, r) \<in> set (todo_gids s)" and "(k', r) \<in> set (todo_gids s)" for k k' r
    using g [OF that(1)] g [OF that(2)] by simp
  moreover have "k = k'" if "(k, r) \<in> set (todo_uids s)" and "(k', r) \<in> set (todo_uids s)"
    for k k' r
    using u [OF that(1)] u [OF that(2)] by simp
  moreover have "fst r = ADD_USER" if "(k, r) \<in> set (todo_uids s)" for k r
    using u [OF that] by simp
  ultimately show ?thesis unfolding one_key_each_def by blast
qed

text \<open>
  C5 (as amended). Start with empty pending sets; take any four points of the two loops
  of main, in order: two in the loop over the declared groups, two in the loop over the
  declared users. At each of them an item is held by \<open>todo_gids\<close> under at most one key
  and by \<open>todo_uids\<close> under at most one key, and only user items are in \<open>todo_uids\<close> (a
  user item may be in both sets). From one point to the next no entry is lost, and the
  ID of an item that was queued is still the key it was queued under. The same uniqueness
  holds after \<open>reconcile\<close>, the two loops as main runs them.
\<close>

theorem pending_sets_frozen:
  assumes "todo_uids s = []" and "todo_gids s = []" and "well_typed s"
    and "distinct (gs1 @ gs2)" and "distinct (us1 @ us2)"
    and "set (gs1 @ gs2) \<subseteq> fst ` set (groups s)" and "set (us1 @ us2) \<subseteq> fst ` set (users s)"
    and "sa = process_items h (map (Pair ADD_GROUP) gs1) s"
    and "sb = process_items h (map (Pair ADD_GROUP) gs2) sa"
    and "sc = process_items h (map (Pair ADD_USER) us1) sb"
    and "sd = process_items h (map (Pair ADD_USER) us2) sc"
  shows "one_key_each sa \<and> one_key_each sb \<and> one_key_each sc \<and> one_key_each sd \<and>
         frozen sa sb \<and> frozen sb sc \<and> frozen sc sd \<and>
         (distinct (map fst (groups s)) \<and> distinct (map fst (users s)) \<longrightarrow>
            one_key_each (reconcile h s))"
proof -
  have sb': "sb = process_items h (map (Pair ADD_GROUP) (gs1 @ gs2)) s"
    by (simp add: assms(8,9) process_items_append)
  have sd': "sd = process_items h (map (Pair ADD_USER) (us1 @ us2)) sb"
    by (simp add: assms(10,11) process_items_append)
  have d1: "distinct gs1" "distinct us1" using assms(4,5) by simp_all
  have e1: "set gs1 \<subseteq> fst ` set (groups s)" "set us1 \<subseteq> fst ` set (users s)"
    using assms(6,7) by simp_all
  have nil: "sa = process_items h (map (Pair ADD_USER) []) sa"
            "sb = process_items h (map (Pair ADD_USER) []) sb"
    by simp_all
  have empty: "distinct ([]::string list)" "set ([]::string list) \<subseteq> fst ` set (users s)"
    by simp_all
  have ia: "pending_inv sa"
    using two_loops [OF assms(1-3) d1(1) empty(1) e1(1) empty(2) assms(8) nil(1)] by simp
  have ib: "pending_inv sb"
    using two_loops [OF assms(1-3) assms(4) empty(1) assms(6) empty(2) sb' nil(2)] by simp
  have ic: "pending_inv sc"
    using two_loops [OF assms(1-3) assms(4) d1(2) assms(6) e1(2) sb' assms(10)] by simp
  have id: "pending_inv sd"
    using two_loops [OF assms(1-3) assms(4) assms(5) assms(6) assms(7) sb' sd'] by simp
  have ab: "pending_le sa sb" unfolding assms(9) by (rule pending_le_process_items)
  have bc: "pending_le sb sc" unfolding assms(10) by (rule pending_le_process_items)
  have cd: "pending_le sc sd" unfolding assms(11) by (rule pending_le_process_items)
  have rec: "one_key_each (reconcile h s)"
    if "distinct (map fst (groups s))" and "distinct (map fst (users s))"
    using pending_inv_reconcile [OF assms(1-3) that] by (rule pending_inv_one_key)
  show ?thesis
    using pending_inv_one_key [OF ia] pending_inv_one_key [OF ib] pending_inv_one_key [OF ic]
      pending_inv_one_key [OF id] pending_inv_frozen [OF ia ib ab]
      pending_inv_frozen [OF ib ic bc] pending_inv_frozen [OF ic id cd] rec
    by blast
qed

theorem pending_sets_frozen_witness:
  "frozen (process_items quiet_host (map (Pair ADD_USER) [''httpd''])
             (process_items quiet_host (map (Pair ADD_GROUP) [])
                (process_items quiet_host (map (Pair ADD_GROUP) []) httpd_session)))
          (process_items quiet_host (map (Pair ADD_USER) [])
             (process_items quiet_host (map (Pair ADD_USER) [''httpd''])
                (process_items quiet_host (map (Pair ADD_GROUP) [])
                   (process_items quiet_host (map (Pair ADD_GROUP) []) httpd_session)))) \<and>
   todo_gids (process_items quiet_host (map (Pair ADD_USER) [''httpd''])
             (process_items quiet_host (map (Pair ADD_GROUP) [])
                (process_items quiet_host (map (Pair ADD_GROUP) []) httpd_session))) =
     [(GID_TO_PTR 999, (ADD_USER, ''httpd''))] \<and>
   one_key_each (reconcile quiet_host httpd_session)"
proof -
  have t: "todo_gids (process_items quiet_host (map (Pair ADD_USER) [''httpd''])
             (process_items quiet_host (map (Pair ADD_GROUP) [])
                (process_items quiet_host (map (Pair ADD_GROUP) []) httpd_session))) =
     [(GID_TO_PTR 999, (ADD_USER, ''httpd''))]"
    by (simp add: model_defs fixture_defs httpd_session_def httpd_item_def)
  have e: "todo_uids httpd_session = []" "todo_gids httpd_session = []"
    and d: "distinct (map fst (groups httpd_session))" "distinct (map fst (users httpd_session))"
    and sub: "set ([''httpd''] @ []) \<subseteq> fst ` set (users httpd_session)"
      "set ([] @ []) \<subseteq> fst ` set (groups httpd_session)"
    and dd: "distinct ([] @ [] :: string list)" "distinct ([''httpd''] @ [])"
    by (simp_all add: httpd_session_def fresh_session_def)
  show ?thesis
    using pending_sets_frozen [OF e well_typed_httpd_session dd sub(2,1) refl refl refl refl,
        of quiet_host] t d
    by simp
qed

subsection \<open>A user with a shadow entry only\<close>

lemma user_side_set_item:
  "(\<And>i. name (f i) = name i) \<Longrightarrow> user_side r (set_item r' f s) = user_side r s"
  by (cases "item_at s r'") (auto simp: user_side_def item_at_set_item)

lemma user_side_fields [simp]:
  "user_side r (s\<lparr>todo_gids := a\<rparr>) = user_side r s"
  "user_side r (s\<lparr>search_gid := c\<rparr>) = user_side r s"
  by (simp_all add: user_side_def)

lemma user_side_group_blocks:
  "user_side r (step_state (add_group_database r' s)) = user_side r s"
  "user_side r (step_state (add_group_nss h r' s)) = user_side r s"
  "user_side r (step_state (add_group_suggested h r' s)) = user_side r s"
  "user_side r (step_state (add_group_reuse_uid h r' s)) = user_side r s"
  "user_side r (step_state (add_group_path h r' s)) = user_side r s"
  "user_side r (step_state (add_group_todo r' s)) = user_side r s"
  by (auto simp: add_group_database_def add_group_nss_def add_group_suggested_def
        add_group_path_def add_group_reuse_uid_def add_group_todo_def Let_def
        user_side_set_item split: lookup.splits option.splits prod.splits)

lemma user_side_scan_gid: "user_side r (step_state (scan_gid h s)) = user_side r s"
  using scan_gid_result [of s h] by auto

lemma user_side_add_group_search:
  "user_side r (step_state (add_group_search h r' s)) = user_side r s"
proof (cases "scan_gid h s")
  case (Return k a)
  then show ?thesis
    using user_side_scan_gid [of r h s] by (simp add: add_group_search_def and_then_def)
next
  case (Continue a)
  then show ?thesis
    using user_side_scan_gid [of r h s]
    by (simp add: add_group_search_def and_then_def user_side_set_item)
qed

lemma user_side_and_then:
  assumes "user_side r (step_state x) = user_side r s"
    and "\<And>b. user_side r (step_state (g b)) = user_side r b"
  shows "user_side r (step_state (and_then x g)) = user_side r s"
  using assms by (cases x) (simp_all add: and_then_def)

lemma user_side_add_group: "user_side r (snd (add_group h r' s)) = user_side r s"
  unfolding add_group_def snd_finish
  by (intro user_side_and_then user_side_group_blocks user_side_add_group_search)

text \<open>
  C7 (as amended). With no alternate root, a declared user item whose name is neither in
  the loaded passwd database nor known to \<open>getpwnam\<close>, but has a shadow entry, makes
  \<open>add_user\<close> return \<open>-EBADMSG\<close> with the session as it was. \<open>process_item\<close> runs
  \<open>add_group\<close> on the item first: if that fails its result is returned, otherwise the
  result is \<open>-EBADMSG\<close> and the session is the one \<open>add_group\<close> left, so a pending group
  entry made for the item stays queued. \<open>todo_uids\<close> is unchanged: no pending user entry
  is created.
\<close>

theorem shadow_only_user_item:
  assumes i: "item_at s r = Some i" and ty: "type i = ADD_USER"
    and db: "hashmap_get (database_user s) (name i) = None"
    and root: "arg_root s = None"
    and pw: "getpwnam h (name i) = Missing 0"
    and sp: "getspnam h (name i) = Found sp"
  shows "add_user h r s = (- int EBADMSG, s) \<and>
         (fst (add_group h r s) < 0 \<longrightarrow> process_item h r s = add_group h r s) \<and>
         (0 \<le> fst (add_group h r s) \<longrightarrow>
            process_item h r s = (- int EBADMSG, snd (add_group h r s))) \<and>
         todo_uids (snd (process_item h r s)) = todo_uids s"
proof -
  obtain k s1 where ag: "add_group h r s = (k, s1)" by force
  have us: "user_side r s1 = user_side r s"
    using user_side_add_group [of r h r s] ag by simp
  then obtain i1 where i1: "item_at s1 r = Some i1" and n1: "name i1 = name i"
    using i by (auto simp: user_side_def)
  have f1: "arg_root s1 = None" "database_user s1 = database_user s"
      "todo_uids s1 = todo_uids s"
    using us root by (simp_all add: user_side_def)
  have au: "add_user h r s1 = (- int EBADMSG, s1)"
    using i1 by (rule add_user_shadow_abort) (simp_all add: n1 f1 db pw sp)
  have ti: "type (the_item s r) = ADD_USER" using i ty by (simp add: the_item_Some)
  have pi: "process_item h r s = (if k < 0 then (k, s1) else (- int EBADMSG, s1))"
    by (simp add: process_item_def ti ag au)
  have a0: "add_user h r s = (- int EBADMSG, s)"
    using i db root pw sp by (rule add_user_shadow_abort)
  show ?thesis
    using a0 pi ag f1(3) by simp
qed

theorem shadow_only_user_item_witness:
  "add_user shadow_host (ADD_USER, ''foo'') foo_session = (- int EBADMSG, foo_session) \<and>
   fst (process_item shadow_host (ADD_USER, ''foo'') foo_session) = - int EBADMSG \<and>
   todo_uids (snd (process_item shadow_host (ADD_USER, ''foo'') foo_session)) = []"
proof -
  have g: "0 \<le> fst (add_group shadow_host (ADD_USER, ''foo'') foo_session)"
    by (simp add: model_defs fixture_defs shadow_host_def foo_session_def foo_item_def)
  have h1: "item_at foo_session (ADD_USER, ''foo'') = Some foo_item"
    by (simp add: foo_session_def fresh_session_def item_at_def hashmap_get_def)
  have h2: "type foo_item = ADD_USER" by (simp add: foo_item_def)
  have h3: "hashmap_get (database_user foo_session) (name foo_item) = None"
    by (simp add: foo_session_def fresh_session_def hashmap_get_def)
  have h4: "arg_root foo_session = None" by (simp add: foo_session_def fresh_session_def)
  have h5: "getpwnam shadow_host (name foo_item) = Missing 0"
    by (simp add: shadow_host_def quiet_host_def)
  have h6: "getspnam shadow_host (name foo_item) = Found ()"
    by (simp add: shadow_host_def foo_item_def)
  have e: "todo_uids foo_session = []" by (simp add: foo_session_def fresh_session_def)
  note t = shadow_only_user_item [OF h1 h2 h3 h4 h5 h6]
  from t have a: "add_user shadow_host (ADD_USER, ''foo'') foo_session =
      (- int EBADMSG, foo_session)" by blast
  from t g have "process_item shadow_host (ADD_USER, ''foo'') foo_session =
      (- int EBADMSG, snd (add_group shadow_host (ADD_USER, ''foo'') foo_session))" by blast
  then have p: "fst (process_item shadow_host (ADD_USER, ''foo'') foo_session) =
      - int EBADMSG" by (simp only: fst_conv)
  from t have "todo_uids (snd (process_item shadow_host (ADD_USER, ''foo'') foo_session)) =
      todo_uids foo_session" by blast
  then have u: "todo_uids (snd (process_item shadow_host (ADD_USER, ''foo'') foo_session)) = []"
    by (simp only: e)
  from a p u show ?thesis by (intro conjI)
qed

theorem shadow_only_group_queued_counterexample:
  "fst (process_item shadow_host (ADD_USER, ''foo'') foo_session) = - int EBADMSG \<and>
   todo_gids foo_session = [] \<and>
   todo_gids (snd (process_item shadow_host (ADD_USER, ''foo'') foo_session)) =
     [(GID_TO_PTR 999, (ADD_USER, ''foo''))] \<and>
   todo (the_item (snd (process_item shadow_host (ADD_USER, ''foo'') foo_session))
           (ADD_USER, ''foo'')) \<and>
   fst (main_locked shadow_host 0 no_files foo_session) = EXIT_SUCCESS \<and>
   etc_group (fst (snd (main_locked shadow_host 0 no_files foo_session))) =
     Some [\<lparr>gr_name = ''foo'', gr_passwd = ''x'', gr_gid = 999, gr_mem = []\<rparr>]"
  by (simp add: model_defs fixture_defs shadow_host_def foo_session_def foo_item_def)

subsection \<open>Exhaustion of the system range\<close>







subsection \<open>A copied group with the name of a pending user's group\<close>

lemmas fixture4_defs = httpd_item_def httpd_session_def httpd_max_group_def rooted_session_def
  rooted_files_def

text \<open>
  C2. The claim fails on this run of main. \<open>GID_TO_PTR 4294967295\<close> is the null pointer, so
  \<open>add_group\<close> takes the name \<open>httpd\<close> of the loaded group database for absent and queues
  the user item \<open>httpd\<close> in \<open>todo_gids\<close> under the GID 999. The existing entry then has the
  name of an item held by the pending set of its table, but the copy loop looks the name
  up in \<open>groups\<close>, where a user item is never found: \<open>write_files\<close> returns 0, the exit
  status is \<open>EXIT_SUCCESS\<close>, and the new \<open>/etc/group\<close> holds two lines named \<open>httpd\<close>.
\<close>

theorem duplicate_group_name_written:
  "todo_gids (snd (snd (main_locked quiet_host 0 rooted_files rooted_session))) =
     [(GID_TO_PTR 999, (ADD_USER, ''httpd''))] \<and>
   group_collides (snd (snd (main_locked quiet_host 0 rooted_files rooted_session)))
     httpd_max_group \<and>
   write_files quiet_host (snd (snd (main_locked quiet_host 0 rooted_files rooted_session)))
     rooted_files =
     (0, fst (snd (main_locked quiet_host 0 rooted_files rooted_session))) \<and>
   fst (main_locked quiet_host 0 rooted_files rooted_session) = EXIT_SUCCESS \<and>
   etc_group rooted_files = Some [httpd_max_group] \<and>
   etc_group (fst (snd (main_locked quiet_host 0 rooted_files rooted_session))) =
     Some [httpd_max_group,
           \<lparr>gr_name = ''httpd'', gr_passwd = ''x'', gr_gid = 999, gr_mem = []\<rparr>]"
  by (simp add: group_collides_def model_defs fixture_defs fixture4_defs)


end
